theory Spec2Isabelle
  imports Main
begin

section \<open>Values of the option object\<close>

text \<open>
  The plugin reads its options dynamically (\<^verbatim>\<open>Array.isArray\<close>, \<^verbatim>\<open>!this.scope\<close>,
  \<^verbatim>\<open>caches || defaultOptions.caches\<close>), so an option is a JavaScript value. Arrays hold
  strings (selectors, patterns, names), numbers are the integers, and a function that is
  only tested for being truthy or an array is the opaque \<open>JFunc\<close>. An object is the list of
  its own properties; the first binding of a name is the property's value.
  Strings are lists of 8-bit characters.
\<close>

datatype jsval =
    JUndefined
  | JNull
  | JBool bool
  | JNum int
  | JStr string
  | JArr "string list"
  | JObj "(string \<times> jsval) list"
  | JFunc

fun truthy :: "jsval \<Rightarrow> bool" where
  "truthy JUndefined = False"
| "truthy JNull = False"
| "truthy (JBool b) = b"
| "truthy (JNum n) = (n \<noteq> 0)"
| "truthy (JStr s) = (s \<noteq> [])"
| "truthy (JArr xs) = True"
| "truthy (JObj kvs) = True"
| "truthy JFunc = True"

fun isArray :: "jsval \<Rightarrow> bool" where
  "isArray (JArr xs) = True"
| "isArray v = False"

text \<open>\<^verbatim>\<open>caches[key]\<close> for a truthy \<open>caches\<close> and one of the three bucket names: only
  an object has such a property.\<close>

fun getProp :: "jsval \<Rightarrow> string \<Rightarrow> jsval" where
  "getProp (JObj kvs) k = (case map_of kvs k of Some v \<Rightarrow> v | None \<Rightarrow> JUndefined)"
| "getProp v k = JUndefined"

text \<open>The \<^verbatim>\<open>rewrites\<close> option: a falsy value, a function on paths, or a table of paths.\<close>

datatype rewrites_opt =
    RewritesUnset
  | RewritesFn "string \<Rightarrow> string"
  | RewritesTable "(string \<times> string) list"

record plugin_options =
  opt_caches :: jsval
  opt_scope :: jsval
  opt_updateStrategy :: jsval
  opt_externals :: jsval
  opt_excludes :: jsval
  opt_relativePaths :: jsval
  opt_rewrites :: rewrites_opt
  opt_ServiceWorker :: jsval
  opt_AppCache :: jsval

section \<open>The libraries the plugin calls\<close>

text \<open>
  \<^verbatim>\<open>minimatch(asset, glob)\<close> and \<^verbatim>\<open>hasMagic(cacheKey)\<close> are imported and not part of
  \<^verbatim>\<open>index.js\<close>; they are parameters of the model. \<open>hasMagic\<close> gives \<open>None\<close> for a
  selector without glob syntax and otherwise the matcher whose \<^verbatim>\<open>match\<close> method the scan
  calls.
\<close>

record libs =
  minimatch :: "string \<Rightarrow> string \<Rightarrow> bool"
  hasMagic :: "string \<Rightarrow> (string \<Rightarrow> bool) option"

section \<open>String helpers: the three regular expressions\<close>

text \<open>\<^verbatim>\<open>key.replace(/^\//, '')\<close>\<close>

fun stripLeadingSlash :: "string \<Rightarrow> string" where
  "stripLeadingSlash [] = []"
| "stripLeadingSlash (c # cs) = (if c = CHR ''/'' then cs else c # cs)"

text \<open>\<^verbatim>\<open>scope.replace(/\/$/, '')\<close>\<close>

definition stripTrailingSlash :: "string \<Rightarrow> string" where
  "stripTrailingSlash s = (if s \<noteq> [] \<and> last s = CHR ''/'' then butlast s else s)"

text \<open>The dot of a regular expression matches every character but a line terminator.\<close>

definition isLineTerminator :: "char \<Rightarrow> bool" where
  "isLineTerminator c = (c = CHR 0x0A \<or> c = CHR 0x0D)"

text \<open>
  \<^verbatim>\<open>/^([\s\S]*?)index.htm(l?)$/\<close>: the whole path is a directory part followed by
  \<^verbatim>\<open>index\<close>, one character, \<^verbatim>\<open>htm\<close> and an optional \<^verbatim>\<open>l\<close>. The two tails below are
  the ten and the nine last characters; at most one of them has the shape.
\<close>

definition isIndexTail :: "string \<Rightarrow> string \<Rightarrow> bool" where
  "isIndexTail ext t =
     (length t = 6 + length ext \<and> take 5 t = ''index'' \<and> \<not> isLineTerminator (t ! 5)
      \<and> drop 6 t = ext)"

text \<open>\<^verbatim>\<open>(match, dir) => dir || '/'\<close>\<close>

definition dirOrRoot :: "string \<Rightarrow> string" where
  "dirOrRoot dir = (if dir \<noteq> [] then dir else ''/'')"

definition defaultRewrites :: "string \<Rightarrow> string" where
  "defaultRewrites asset =
     (let n = length asset in
      if 10 \<le> n \<and> isIndexTail ''html'' (drop (n - 10) asset) then dirOrRoot (take (n - 10) asset)
      else if 9 \<le> n \<and> isIndexTail ''htm'' (drop (n - 9) asset) then dirOrRoot (take (n - 9) asset)
      else asset)"

definition defaultOptions :: plugin_options where
  "defaultOptions =
     \<lparr> opt_caches = JStr ''all'',
       opt_scope = JStr ''/'',
       opt_updateStrategy = JStr ''all'',
       opt_externals = JArr [],
       opt_excludes = JArr [],
       opt_relativePaths = JBool False,
       opt_rewrites = RewritesFn defaultRewrites,
       opt_ServiceWorker = JObj [(''output'', JStr ''sw.js''), (''entry'', JStr ''../empty-entry.js'')],
       opt_AppCache = JObj [(''NETWORK'', JStr ''*''), (''FALLBACK'', JNull),
                            (''directory'', JStr ''appcache/''),
                            (''caches'', JArr [''main'', ''additional''])] \<rparr>"

definition updateStrategies :: "string list" where
  "updateStrategies = [''all'', ''hash'', ''changed'']"

section \<open>The plugin object and its constructor\<close>

datatype error =
    TypeError
  | InvalidUpdateStrategy
  | NoCacheService
  | DuplicateRest

text \<open>
  \<open>relativePaths\<close> is kept as the truth value of \<^verbatim>\<open>!scope || options.relativePaths\<close>,
  which is all the code tests. \<open>tools\<close> lists the names under which a tool was stored;
  the two tool classes are imported, and their constructors are taken to return.
  \<open>assets\<close> and \<open>caches\<close> are unset until \<open>setAssets\<close> runs.
\<close>

record plugin =
  options :: plugin_options
  assets :: "string list option"
  scope :: string
  externals :: "string list"
  strategy :: jsval
  relativePaths :: bool
  REST_KEY :: string
  entryPrefix :: string
  tools :: "string list"
  caches :: "(string \<times> string list) list option"

text \<open>\<^verbatim>\<open>addTool\<close>: a tool whose option is \<^verbatim>\<open>null\<close> or \<^verbatim>\<open>false\<close> is not stored.\<close>

definition addTool :: "jsval \<Rightarrow> string \<Rightarrow> string list \<Rightarrow> string list" where
  "addTool toolOptions name ts =
     (if toolOptions = JNull \<or> toolOptions = JBool False then ts else ts @ [name])"

text \<open>
  The constructor. A truthy scope that is not a string has no \<^verbatim>\<open>replace\<close> method, so the
  call on line 51 raises a TypeError before the strategy is checked.
\<close>

definition constructor :: "plugin_options \<Rightarrow> error + plugin" where
  "constructor opts =
     (let rel = (\<not> truthy (opt_scope opts) \<or> truthy (opt_relativePaths opts)) in
      case (if rel then Inr ''''
            else (case opt_scope opts of
                    JStr s \<Rightarrow> Inr (stripTrailingSlash s @ ''/'')
                  | _ \<Rightarrow> Inl TypeError)) of
        Inl e \<Rightarrow> Inl e
      | Inr sc \<Rightarrow>
          if \<not> (case opt_updateStrategy opts of JStr s \<Rightarrow> s \<in> set updateStrategies | _ \<Rightarrow> False)
          then Inl InvalidUpdateStrategy
          else
            let ext = (case opt_externals opts of JArr xs \<Rightarrow> xs | _ \<Rightarrow> []);
                ts = addTool (opt_AppCache opts) ''AppCache''
                       (addTool (opt_ServiceWorker opts) ''ServiceWorker'' [])
            in if ts = [] then Inl NoCacheService
               else Inr \<lparr> options = opts, assets = None, scope = sc, externals = ext,
                          strategy = opt_updateStrategy opts, relativePaths = rel,
                          REST_KEY = '':rest:'', entryPrefix = ''__offline_'',
                          tools = ts, caches = None \<rparr>)"

section \<open>Rewriting and normalising paths\<close>

text \<open>\<^verbatim>\<open>this.rewrite\<close>: the closure the constructor builds from the \<^verbatim>\<open>rewrites\<close> option.\<close>

definition rewrite :: "plugin \<Rightarrow> string \<Rightarrow> string" where
  "rewrite p asset =
     (if take (length (entryPrefix p)) asset = entryPrefix p then ''''
      else (case opt_rewrites (options p) of
              RewritesUnset \<Rightarrow> defaultRewrites asset
            | RewritesFn f \<Rightarrow> f asset
            | RewritesTable t \<Rightarrow> (case map_of t asset of None \<Rightarrow> asset | Some v \<Rightarrow> v)))"

text \<open>The last callback of \<open>validatePaths\<close>: the path normaliser.\<close>

definition normalizePath :: "plugin \<Rightarrow> string \<Rightarrow> string" where
  "normalizePath p key =
     (if relativePaths p then stripLeadingSlash key
      else scope p @ stripLeadingSlash key)"

definition validatePaths :: "plugin \<Rightarrow> string list \<Rightarrow> string list" where
  "validatePaths p as =
     map (normalizePath p) (filter (\<lambda>asset. asset \<noteq> []) (map (rewrite p) as))"

section \<open>Partitioning the assets\<close>

datatype warning =
    PatternNotMatched string
  | AssetNotFound string

fun message :: "warning \<Rightarrow> string" where
  "message (PatternNotMatched cacheKey) =
     ''OfflinePlugin: Cache pattern ['' @ cacheKey @ ''] did not matched any assets''"
| "message (AssetNotFound cacheKey) =
     ''OfflinePlugin: Cache asset ['' @ cacheKey @ ''] is not found in output assets''"

text \<open>
  What the callbacks of \<open>setAssets\<close> share and mutate: the array \<^verbatim>\<open>assets\<close> (here
  \<open>pool\<close>), the variable \<^verbatim>\<open>restSection\<close> and \<^verbatim>\<open>compilation.warnings\<close>.
\<close>

record part_state =
  pool :: "string list"
  restSection :: "string option"
  warnings :: "warning list"

text \<open>
  The \<^verbatim>\<open>for\<close> loop of a glob selector: every asset of the pool that matches is pushed
  to the result and spliced out; the others stay, in order. The pair is (matched, kept).
\<close>

fun globScan :: "(string \<Rightarrow> bool) \<Rightarrow> string list \<Rightarrow> string list \<times> string list" where
  "globScan m [] = ([], [])"
| "globScan m (a # as) =
     (let (matched, kept) = globScan m as
      in if m a then (a # matched, kept) else (matched, a # kept))"

text \<open>The callback of \<^verbatim>\<open>cache.some\<close>, for one selector of bucket \<open>key\<close>.\<close>

definition cacheKeyStep ::
  "libs \<Rightarrow> plugin \<Rightarrow> string \<Rightarrow> string list \<times> part_state \<Rightarrow> string
   \<Rightarrow> error + (string list \<times> part_state)" where
  "cacheKeyStep L p key acc cacheKey =
     (let cacheResult = fst acc; st = snd acc in
      if cacheKey = REST_KEY p then
        (if restSection st \<noteq> None then Inl DuplicateRest
         else Inr (cacheResult, st\<lparr>restSection := Some key\<rparr>))
      else
        (case hasMagic L cacheKey of
           Some magic \<Rightarrow>
             (let (matched, kept) = globScan magic (pool st)
              in Inr (cacheResult @ matched,
                      st\<lparr>pool := kept,
                         warnings := warnings st @
                           (if matched = [] then [PatternNotMatched cacheKey] else [])\<rparr>))
         | None \<Rightarrow>
             (if cacheKey \<notin> set (pool st) then
                (if externals p \<noteq> [] \<and> cacheKey \<in> set (externals p)
                 then Inr (cacheResult @ [cacheKey], st)
                 else Inr (cacheResult @ [cacheKey],
                           st\<lparr>warnings := warnings st @ [AssetNotFound cacheKey]\<rparr>))
              else Inr (cacheResult @ [cacheKey], st\<lparr>pool := remove1 cacheKey (pool st)\<rparr>))))"

text \<open>\<^verbatim>\<open>cache.some(...)\<close>: the callback never returns a truthy value, so every selector
  is visited unless one throws.\<close>

fun cacheSome ::
  "libs \<Rightarrow> plugin \<Rightarrow> string \<Rightarrow> string list \<Rightarrow> string list \<times> part_state
   \<Rightarrow> error + (string list \<times> part_state)" where
  "cacheSome L p key [] acc = Inr acc"
| "cacheSome L p key (cacheKey # rest) acc =
     (case cacheKeyStep L p key acc cacheKey of
        Inl e \<Rightarrow> Inl e
      | Inr acc' \<Rightarrow> cacheSome L p key rest acc')"

text \<open>\<^verbatim>\<open>Array.isArray(caches[key]) ? caches[key] : []\<close>\<close>

definition cacheFor :: "jsval \<Rightarrow> string \<Rightarrow> string list" where
  "cacheFor cachesv key = (case getProp cachesv key of JArr xs \<Rightarrow> xs | _ \<Rightarrow> [])"

text \<open>
  The callback of \<^verbatim>\<open>reduce\<close>. \<open>post\<close> is what is applied to a list of raw assets before
  it is stored: \<open>setAssets\<close> passes \<open>validatePaths\<close>; the identity gives the bucket
  contents before rewriting and normalisation.
\<close>

definition reduceStep ::
  "libs \<Rightarrow> plugin \<Rightarrow> (string list \<Rightarrow> string list) \<Rightarrow> jsval
   \<Rightarrow> (string \<times> string list) list \<times> part_state \<Rightarrow> string
   \<Rightarrow> error + ((string \<times> string list) list \<times> part_state)" where
  "reduceStep L p post cachesv acc key =
     (let result = fst acc; st = snd acc; cache = cacheFor cachesv key in
      if cache = [] then Inr (result, st)
      else (case cacheSome L p key cache ([], st) of
              Inl e \<Rightarrow> Inl e
            | Inr r \<Rightarrow> Inr (result @ [(key, post (fst r))], snd r)))"

fun reduceKeys ::
  "libs \<Rightarrow> plugin \<Rightarrow> (string list \<Rightarrow> string list) \<Rightarrow> jsval \<Rightarrow> string list
   \<Rightarrow> (string \<times> string list) list \<times> part_state
   \<Rightarrow> error + ((string \<times> string list) list \<times> part_state)" where
  "reduceKeys L p post cachesv [] acc = Inr acc"
| "reduceKeys L p post cachesv (key # keys) acc =
     (case reduceStep L p post cachesv acc key of
        Inl e \<Rightarrow> Inl e
      | Inr acc' \<Rightarrow> reduceKeys L p post cachesv keys acc')"

definition cacheNames :: "string list" where
  "cacheNames = [''main'', ''additional'', ''optional'']"

text \<open>\<^verbatim>\<open>handledCaches[restSection] = handledCaches[restSection].concat(...)\<close>\<close>

definition concatAt ::
  "string \<Rightarrow> string list \<Rightarrow> (string \<times> string list) list \<Rightarrow> (string \<times> string list) list" where
  "concatAt key extra result =
     map (\<lambda>kv. if fst kv = key then (fst kv, snd kv @ extra) else kv) result"

text \<open>The \<^verbatim>\<open>else\<close> branch of \<open>setAssets\<close>: the reduce over the three bucket names, then
  the remainder.\<close>

definition handleCaches ::
  "libs \<Rightarrow> plugin \<Rightarrow> (string list \<Rightarrow> string list) \<Rightarrow> jsval \<Rightarrow> part_state
   \<Rightarrow> error + ((string \<times> string list) list \<times> part_state)" where
  "handleCaches L p post cachesv st0 =
     (case reduceKeys L p post cachesv cacheNames ([], st0) of
        Inl e \<Rightarrow> Inl e
      | Inr r \<Rightarrow>
          (case restSection (snd r) of
             Some rs \<Rightarrow>
               if pool (snd r) \<noteq> [] then Inr (concatAt rs (post (pool (snd r))) (fst r), snd r)
               else Inr r
           | None \<Rightarrow> Inr r))"

text \<open>The filter of lines 155 to 165.\<close>

definition excludeAssets :: "libs \<Rightarrow> jsval \<Rightarrow> string list \<Rightarrow> string list" where
  "excludeAssets L excludes as =
     (case excludes of
        JArr globs \<Rightarrow>
          if globs \<noteq> [] then filter (\<lambda>asset. \<not> list_ex (\<lambda>glob. minimatch L asset glob) globs) as
          else as
      | _ \<Rightarrow> as)"

text \<open>\<^verbatim>\<open>this.options.caches || defaultOptions.caches\<close>\<close>

definition cachesOption :: "plugin \<Rightarrow> jsval" where
  "cachesOption p =
     (if truthy (opt_caches (options p)) then opt_caches (options p) else opt_caches defaultOptions)"

text \<open>
  \<open>setAssets\<close> takes the plugin, the asset names and the warnings the compilation
  already holds, and gives the plugin and the warnings afterwards. \<^verbatim>\<open>this.assets\<close> is the
  very array the partitioning splices, so it ends as what is left of the pool.
\<close>

definition setAssets ::
  "libs \<Rightarrow> plugin \<Rightarrow> string list \<Rightarrow> warning list \<Rightarrow> error + (plugin \<times> warning list)" where
  "setAssets L p as0 ws =
     (let cachesv = cachesOption p;
          as = excludeAssets L (opt_excludes (options p)) as0
      in if cachesv = JStr ''all'' then
           Inr (p\<lparr>assets := Some as, caches := Some [(''main'', validatePaths p as)]\<rparr>, ws)
         else
           (case handleCaches L p (validatePaths p) cachesv
                   \<lparr>pool = as, restSection = None, warnings = ws\<rparr> of
              Inl e \<Rightarrow> Inl e
            | Inr r \<Rightarrow>
                Inr (p\<lparr>assets := Some (pool (snd r)), caches := Some (fst r)\<rparr>,
                     warnings (snd r))))"

text \<open>
  One build: the plugin is constructed from its options and the \<^verbatim>\<open>emit\<close> hook calls
  \<open>setAssets\<close> with the names of the compilation's assets and no earlier warning. The
  result is \<^verbatim>\<open>this.caches\<close> and \<^verbatim>\<open>compilation.warnings\<close>.
\<close>

definition emit ::
  "libs \<Rightarrow> plugin_options \<Rightarrow> string list
   \<Rightarrow> error + ((string \<times> string list) list option \<times> warning list)" where
  "emit L opts as =
     (case constructor opts of
        Inl e \<Rightarrow> Inl e
      | Inr p \<Rightarrow>
          (case setAssets L p as [] of
             Inl e \<Rightarrow> Inl e
           | Inr r \<Rightarrow> Inr (caches (fst r), snd r)))"

text \<open>The same build with the bucket contents before rewriting and normalisation:
  the lists called \<^verbatim>\<open>cacheResult\<close>, and the remainder as it is appended.\<close>

definition rawCaches ::
  "libs \<Rightarrow> plugin \<Rightarrow> string list \<Rightarrow> warning list
   \<Rightarrow> error + ((string \<times> string list) list \<times> part_state)" where
  "rawCaches L p as0 ws =
     handleCaches L p (\<lambda>xs. xs) (cachesOption p)
       \<lparr>pool = excludeAssets L (opt_excludes (options p)) as0, restSection = None, warnings = ws\<rparr>"

section \<open>A glob matcher to run the model with\<close>

text \<open>
  Modelled from the spec: the Glob Matcher (\<^verbatim>\<open>minimatch\<close> and \<^verbatim>\<open>misc/has-magic\<close> are
  not in \<^verbatim>\<open>index.js\<close>). Only a fragment of the glob language is modelled: \<^verbatim>\<open>*\<close> matches
  any run of characters other than the separator, \<^verbatim>\<open>?\<close> one such character, every other
  character itself. A selector with neither metacharacter is a literal. Double stars,
  brace groups, character classes and the rule for a leading dot are not modelled; the
  matcher serves the worked examples only, which use none of them.
\<close>

fun globMatch :: "string \<Rightarrow> string \<Rightarrow> bool" where
  "globMatch [] s = (s = [])"
| "globMatch (g # gs) [] = (g = CHR ''*'' \<and> globMatch gs [])"
| "globMatch (g # gs) (c # cs) =
     (if g = CHR ''*'' then globMatch gs (c # cs) \<or> (c \<noteq> CHR ''/'' \<and> globMatch (g # gs) cs)
      else if g = CHR ''?'' then c \<noteq> CHR ''/'' \<and> globMatch gs cs
      else g = c \<and> globMatch gs cs)"

definition globLibs :: libs where
  "globLibs =
     \<lparr> minimatch = (\<lambda>asset glob. globMatch glob asset),
       hasMagic = (\<lambda>pat. if CHR ''*'' \<in> set pat \<or> CHR ''?'' \<in> set pat
                          then Some (globMatch pat) else None) \<rparr>"

section \<open>Notions the properties are stated with\<close>

text \<open>How many remainder sentinels the partitioning has recorded: none or one.\<close>

definition restSeen :: "part_state \<Rightarrow> nat" where
  "restSeen st = (case restSection st of None \<Rightarrow> 0 | Some rs \<Rightarrow> 1)"

text \<open>
  \<open>x\<close> is a literal selector of the selector list \<open>cache\<close> (it is in the list, it is not
  the sentinel and it has no glob syntax), and its name is in the externals or the missing
  asset warning for it is among the warnings \<open>ws\<close>. Whether the pool held \<open>x\<close> is not
  part of this predicate; the statements below say it beside it.
\<close>

definition passedThrough :: "libs \<Rightarrow> plugin \<Rightarrow> string list \<Rightarrow> warning list \<Rightarrow> string \<Rightarrow> bool" where
  "passedThrough L p cache ws x =
     (x \<in> set cache \<and> x \<noteq> REST_KEY p \<and> hasMagic L x = None
      \<and> (x \<in> set (externals p) \<or> AssetNotFound x \<in> set ws))"

text \<open>
  The partitioning of \<open>rawCaches\<close> stopped where a selector is reached: the buckets
  \<open>kpre\<close> have been reduced, and of the bucket \<open>key\<close> the selectors \<open>pre\<close> have been
  visited. The result is the buckets stored so far, the \<^verbatim>\<open>cacheResult\<close> of \<open>key\<close> so
  far, and the state: its pool is the remaining pool the next selector meets.
\<close>

definition reached ::
  "libs \<Rightarrow> plugin \<Rightarrow> string list \<Rightarrow> warning list \<Rightarrow> string list \<Rightarrow> string \<Rightarrow> string list
   \<Rightarrow> error + ((string \<times> string list) list \<times> string list \<times> part_state)" where
  "reached L p as0 ws kpre key pre =
     (case reduceKeys L p (\<lambda>xs. xs) (cachesOption p) kpre
             ([], \<lparr>pool = excludeAssets L (opt_excludes (options p)) as0,
                   restSection = None, warnings = ws\<rparr>) of
        Inl e \<Rightarrow> Inl e
      | Inr acc \<Rightarrow>
          (case cacheSome L p key pre ([], snd acc) of
             Inl e \<Rightarrow> Inl e
           | Inr r \<Rightarrow> Inr (fst acc, fst r, snd r)))"

text \<open>The pool when the bucket \<open>key\<close> is reached: the buckets named before it in
  \<open>cacheNames\<close> have been reduced, and none of its selectors has been visited.\<close>

definition poolWhen :: "libs \<Rightarrow> plugin \<Rightarrow> string list \<Rightarrow> warning list \<Rightarrow> string \<Rightarrow> string list" where
  "poolWhen L p as0 ws key =
     (case reached L p as0 ws (takeWhile (\<lambda>k. k \<noteq> key) cacheNames) key [] of
        Inl e \<Rightarrow> []
      | Inr r \<Rightarrow> pool (snd (snd r)))"

text \<open>
  What holds of the buckets filled so far (\<open>fst acc\<close>) and of the state of the
  partitioning (\<open>snd acc\<close>), for the pool \<open>pool0\<close> the partitioning started from and the
  pool \<open>PB key\<close> each bucket met: the pool only shrinks; an entry of a bucket is an asset of
  the pool the bucket met, or a literal of that bucket passed through; and when \<open>pool0\<close>
  has no duplicates, no entry of a bucket is still in the pool, and an entry of two buckets
  is, in one of them, a passed-through literal that the pool the bucket met did not hold.
\<close>

definition partInv ::
  "libs \<Rightarrow> plugin \<Rightarrow> jsval \<Rightarrow> (string \<Rightarrow> string list) \<Rightarrow> string list
   \<Rightarrow> (string \<times> string list) list \<times> part_state \<Rightarrow> bool" where
  "partInv L p c PB pool0 acc =
     (set (pool (snd acc)) \<subseteq> set pool0
      \<and> (\<forall>kr\<in>set (fst acc).
            set (pool (snd acc)) \<subseteq> set (PB (fst kr)) \<and> set (PB (fst kr)) \<subseteq> set pool0
            \<and> (\<forall>x\<in>set (snd kr).
                  x \<in> set (PB (fst kr))
                  \<or> passedThrough L p (cacheFor c (fst kr)) (warnings (snd acc)) x))
      \<and> (distinct pool0 \<longrightarrow>
            distinct (pool (snd acc))
            \<and> (\<forall>kr\<in>set (fst acc). \<forall>x\<in>set (snd kr). x \<notin> set (pool (snd acc)))
            \<and> (\<forall>kr\<in>set (fst acc). \<forall>kr'\<in>set (fst acc). fst kr \<noteq> fst kr' \<longrightarrow>
                  (\<forall>x. x \<in> set (snd kr) \<and> x \<in> set (snd kr') \<longrightarrow>
                     (x \<notin> set (PB (fst kr))
                      \<and> passedThrough L p (cacheFor c (fst kr)) (warnings (snd acc)) x)
                     \<or> (x \<notin> set (PB (fst kr'))
                      \<and> passedThrough L p (cacheFor c (fst kr')) (warnings (snd acc)) x)))))"

text \<open>Applying \<open>post\<close> to every bucket of a bucket map.\<close>

definition postMap ::
  "(string list \<Rightarrow> string list) \<Rightarrow> (string \<times> string list) list \<times> part_state
   \<Rightarrow> (string \<times> string list) list \<times> part_state" where
  "postMap post acc = (map (\<lambda>kr. (fst kr, post (snd kr))) (fst acc), snd acc)"

section \<open>Evaluating the default rewrite rule\<close>

lemma defaultRewrites_app_js: "defaultRewrites ''app.js'' = ''app.js''"
  by code_simp

lemma defaultRewrites_index_html: "defaultRewrites ''index.html'' = ''/''"
  by code_simp

lemma defaultRewrites_vendor_js: "defaultRewrites ''vendor.js'' = ''vendor.js''"
  by code_simp

lemma defaultRewrites_style_css: "defaultRewrites ''style.css'' = ''style.css''"
  by code_simp

lemma defaultRewrites_a_js: "defaultRewrites ''a.js'' = ''a.js''"
  by code_simp

lemma defaultRewrites_missing_js: "defaultRewrites ''missing.js'' = ''missing.js''"
  by code_simp

lemma defaultRewrites_app_js_map: "defaultRewrites ''app.js.map'' = ''app.js.map''"
  by code_simp

lemmas build_defs = emit_def constructor_def defaultOptions_def updateStrategies_def addTool_def
  stripTrailingSlash_def setAssets_def cachesOption_def excludeAssets_def validatePaths_def
  rewrite_def normalizePath_def Let_def

lemmas part_defs = handleCaches_def cacheNames_def reduceStep_def cacheFor_def cacheKeyStep_def
  concatAt_def

lemma globScan_filter: "globScan m as = (filter m as, filter (\<lambda>a. \<not> m a) as)"
  by (induction as) (auto split: prod.splits)

lemmas ctor_defs = constructor_def defaultOptions_def updateStrategies_def addTool_def
  stripTrailingSlash_def

lemmas raw_defs = rawCaches_def cachesOption_def excludeAssets_def handleCaches_def cacheNames_def
  reduceStep_def cacheFor_def cacheKeyStep_def concatAt_def globScan_filter Let_def

section \<open>The remainder sentinel\<close>

lemma restSeen_le: "restSeen st \<le> 1"
  by (simp add: restSeen_def split: option.splits)

lemma cacheKeyStep_rest:
  "case cacheKeyStep L p key acc k of
     Inl e \<Rightarrow> e = DuplicateRest \<and> k = REST_KEY p \<and> restSeen (snd acc) = 1
   | Inr acc' \<Rightarrow> restSeen (snd acc') = restSeen (snd acc) + (if k = REST_KEY p then 1 else 0)"
  by (auto simp add: cacheKeyStep_def restSeen_def Let_def split: option.splits prod.splits)

lemma cacheSome_rest:
  "case cacheSome L p key ks acc of
     Inl e \<Rightarrow> e = DuplicateRest \<and> 2 \<le> restSeen (snd acc) + count_list ks (REST_KEY p)
   | Inr acc' \<Rightarrow> restSeen (snd acc') = restSeen (snd acc) + count_list ks (REST_KEY p)"
proof (induction ks arbitrary: acc)
  case Nil
  then show ?case by simp
next
  case (Cons k ks)
  show ?case
  proof (cases "cacheKeyStep L p key acc k")
    case (Inl e)
    with cacheKeyStep_rest [where L=L and p=p and key=key and acc=acc and k=k]
    show ?thesis by simp
  next
    case (Inr acc1)
    with cacheKeyStep_rest [where L=L and p=p and key=key and acc=acc and k=k]
      Cons.IH [where acc=acc1]
    show ?thesis by (auto split: sum.splits)
  qed
qed

lemma reduceStep_rest:
  "case reduceStep L p post c acc key of
     Inl e \<Rightarrow> e = DuplicateRest
        \<and> 2 \<le> restSeen (snd acc) + count_list (cacheFor c key) (REST_KEY p)
   | Inr acc' \<Rightarrow>
        restSeen (snd acc') = restSeen (snd acc) + count_list (cacheFor c key) (REST_KEY p)"
proof (cases "cacheFor c key = []")
  case True
  then show ?thesis by (simp add: reduceStep_def)
next
  case False
  with cacheSome_rest [where L=L and p=p and key=key and ks="cacheFor c key"
      and acc="([], snd acc)"]
  show ?thesis by (auto simp add: reduceStep_def Let_def split: sum.splits)
qed

lemma reduceKeys_rest:
  "case reduceKeys L p post c keys acc of
     Inl e \<Rightarrow> e = DuplicateRest
        \<and> 2 \<le> restSeen (snd acc) + (\<Sum>key\<leftarrow>keys. count_list (cacheFor c key) (REST_KEY p))
   | Inr acc' \<Rightarrow> restSeen (snd acc') =
        restSeen (snd acc) + (\<Sum>key\<leftarrow>keys. count_list (cacheFor c key) (REST_KEY p))"
proof (induction keys arbitrary: acc)
  case Nil
  then show ?case by simp
next
  case (Cons key keys)
  show ?case
  proof (cases "reduceStep L p post c acc key")
    case (Inl e)
    with reduceStep_rest [where L=L and p=p and post=post and c=c and acc=acc and key=key]
    show ?thesis by simp
  next
    case (Inr acc1)
    with reduceStep_rest [where L=L and p=p and post=post and c=c and acc=acc and key=key]
      Cons.IH [where acc=acc1]
    show ?thesis by (auto split: sum.splits)
  qed
qed

text \<open>The partitioning fails exactly when two sentinels are met, and then with the
  duplicate-sentinel error.\<close>

lemma handleCaches_rest:
  "handleCaches L p post c st = Inl DuplicateRest \<longleftrightarrow>
     2 \<le> restSeen st + (\<Sum>key\<leftarrow>cacheNames. count_list (cacheFor c key) (REST_KEY p))"
proof -
  let ?n = "\<Sum>key\<leftarrow>cacheNames. count_list (cacheFor c key) (REST_KEY p)"
  show ?thesis
  proof (cases "reduceKeys L p post c cacheNames ([], st)")
    case (Inl e)
    with reduceKeys_rest [where L=L and p=p and post=post and c=c and keys=cacheNames
        and acc="([], st)"]
    show ?thesis by (simp add: handleCaches_def)
  next
    case (Inr r)
    with reduceKeys_rest [where L=L and p=p and post=post and c=c and keys=cacheNames
        and acc="([], st)"]
    have "restSeen (snd r) = restSeen st + ?n" by simp
    with restSeen_le [of "snd r"] have "\<not> 2 \<le> restSeen st + ?n" by simp
    with Inr show ?thesis
      by (simp add: handleCaches_def split: option.splits)
  qed
qed

text \<open>
  Claim C2. When the selector lists of \<^verbatim>\<open>main\<close>, \<^verbatim>\<open>additional\<close> and \<^verbatim>\<open>optional\<close> hold
  the token \<^verbatim>\<open>:rest:\<close> twice or more in total, in one list or in several, \<open>setAssets\<close>
  throws the duplicate-sentinel error, whatever the assets, the matcher and the earlier
  warnings are.
\<close>

theorem duplicate_rest_is_fatal:
  assumes "constructor opts = Inr p"
    and "cachesOption p \<noteq> JStr ''all''"
    and "2 \<le> (\<Sum>key\<leftarrow>[''main'', ''additional'', ''optional''].
                 count_list (cacheFor (cachesOption p) key) '':rest:'')"
  shows "setAssets L p as ws = Inl DuplicateRest"
proof -
  from assms(1) have "REST_KEY p = '':rest:''"
    by (auto simp add: constructor_def Let_def split: if_splits sum.splits)
  with assms(3) have "handleCaches L p (validatePaths p) (cachesOption p)
      \<lparr>pool = excludeAssets L (opt_excludes (options p)) as, restSection = None, warnings = ws\<rparr>
    = Inl DuplicateRest"
    by (simp add: handleCaches_rest cacheNames_def restSeen_def)
  with assms(2) show ?thesis
    by (simp add: setAssets_def Let_def)
qed

theorem duplicate_rest_is_fatal_witness:
  "constructor (defaultOptions\<lparr>opt_caches :=
       JObj [(''main'', JArr ['':rest:'']), (''optional'', JArr [''a.js'', '':rest:''])]\<rparr>)
     = Inr (projr (constructor (defaultOptions\<lparr>opt_caches :=
       JObj [(''main'', JArr ['':rest:'']), (''optional'', JArr [''a.js'', '':rest:''])]\<rparr>)))
   \<and> setAssets globLibs
       (projr (constructor (defaultOptions\<lparr>opt_caches :=
          JObj [(''main'', JArr ['':rest:'']), (''optional'', JArr [''a.js'', '':rest:''])]\<rparr>)))
       [''a.js'', ''b.js''] [] = Inl DuplicateRest"
  using duplicate_rest_is_fatal
    [of "defaultOptions\<lparr>opt_caches :=
           JObj [(''main'', JArr ['':rest:'']), (''optional'', JArr [''a.js'', '':rest:''])]\<rparr>"
        "projr (constructor (defaultOptions\<lparr>opt_caches :=
           JObj [(''main'', JArr ['':rest:'']), (''optional'', JArr [''a.js'', '':rest:''])]\<rparr>))"
        globLibs "[''a.js'', ''b.js'']" "[]"]
  by (simp add: constructor_def defaultOptions_def updateStrategies_def addTool_def
      stripTrailingSlash_def cachesOption_def cacheFor_def)

section \<open>Two builds with the default configuration\<close>

text \<open>
  Claim C4, as the code has it. With the default options and the exclude pattern
  \<^verbatim>\<open>*.map\<close>, a matcher that accepts \<^verbatim>\<open>app.js.map\<close> and rejects the two other names, the
  assets \<^verbatim>\<open>app.js\<close>, \<^verbatim>\<open>app.js.map\<close>, \<^verbatim>\<open>index.html\<close> give the single bucket
  \<^verbatim>\<open>main = ["/app.js", "/"]\<close> and no warning: every path carries the scope prefix.
\<close>

theorem simplified_mode_example:
  assumes "\<not> minimatch L ''app.js'' ''*.map''"
    and "minimatch L ''app.js.map'' ''*.map''"
    and "\<not> minimatch L ''index.html'' ''*.map''"
  shows "emit L (defaultOptions\<lparr>opt_excludes := JArr [''*.map'']\<rparr>)
           [''app.js'', ''app.js.map'', ''index.html'']
         = Inr (Some [(''main'', [''/app.js'', ''/''])], [])"
  using assms
  by (simp add: build_defs defaultRewrites_app_js defaultRewrites_index_html)

theorem simplified_mode_example_witness:
  "\<not> minimatch globLibs ''app.js'' ''*.map''
   \<and> minimatch globLibs ''app.js.map'' ''*.map''
   \<and> \<not> minimatch globLibs ''index.html'' ''*.map''
   \<and> emit globLibs (defaultOptions\<lparr>opt_excludes := JArr [''*.map'']\<rparr>)
        [''app.js'', ''app.js.map'', ''index.html'']
      = Inr (Some [(''main'', [''/app.js'', ''/''])], [])"
  using simplified_mode_example [of globLibs] by (simp add: globLibs_def)

text \<open>The bucket the claim C4 expects, with \<^verbatim>\<open>app.js\<close> unprefixed, is not what the build
  gives.\<close>

theorem simplified_mode_example_counterexample:
  "emit globLibs (defaultOptions\<lparr>opt_excludes := JArr [''*.map'']\<rparr>)
     [''app.js'', ''app.js.map'', ''index.html'']
   \<noteq> Inr (Some [(''main'', [''app.js'', ''/''])], [])"
  by (simp add: build_defs globLibs_def defaultRewrites_app_js defaultRewrites_index_html)

text \<open>
  Claim C5, as the code has it. With the default options otherwise, the buckets
  \<^verbatim>\<open>{main: ["app.js"], additional: [":rest:"]}\<close>, a \<open>hasMagic\<close> for which \<^verbatim>\<open>app.js\<close> is a
  literal, and the assets \<^verbatim>\<open>app.js\<close>, \<^verbatim>\<open>vendor.js\<close>, \<^verbatim>\<open>style.css\<close> give
  \<^verbatim>\<open>main = ["/app.js"]\<close> and \<^verbatim>\<open>additional = ["/vendor.js", "/style.css"]\<close>, in this order,
  and no warning.
\<close>

theorem rest_example:
  assumes "hasMagic L ''app.js'' = None"
  shows "emit L (defaultOptions\<lparr>opt_caches :=
                   JObj [(''main'', JArr [''app.js'']), (''additional'', JArr ['':rest:''])]\<rparr>)
           [''app.js'', ''vendor.js'', ''style.css'']
         = Inr (Some [(''main'', [''/app.js'']),
                      (''additional'', [''/vendor.js'', ''/style.css''])], [])"
  using assms
  by (simp add: build_defs part_defs defaultRewrites_app_js defaultRewrites_vendor_js
      defaultRewrites_style_css)

theorem rest_example_witness:
  "hasMagic globLibs ''app.js'' = None
   \<and> emit globLibs (defaultOptions\<lparr>opt_caches :=
                       JObj [(''main'', JArr [''app.js'']), (''additional'', JArr ['':rest:''])]\<rparr>)
        [''app.js'', ''vendor.js'', ''style.css'']
      = Inr (Some [(''main'', [''/app.js'']),
                   (''additional'', [''/vendor.js'', ''/style.css''])], [])"
  using rest_example [of globLibs] by (simp add: globLibs_def)

text \<open>The unprefixed buckets the claim C5 expects are not what the build gives.\<close>

theorem rest_example_counterexample:
  "emit globLibs (defaultOptions\<lparr>opt_caches :=
                     JObj [(''main'', JArr [''app.js'']), (''additional'', JArr ['':rest:''])]\<rparr>)
     [''app.js'', ''vendor.js'', ''style.css'']
   \<noteq> Inr (Some [(''main'', [''app.js'']), (''additional'', [''vendor.js'', ''style.css''])], [])"
  by (simp add: build_defs part_defs globLibs_def defaultRewrites_app_js
      defaultRewrites_vendor_js defaultRewrites_style_css)

section \<open>Normalising twice\<close>

lemma stripLeadingSlash_idem:
  "stripLeadingSlash (stripLeadingSlash key) = stripLeadingSlash key \<longleftrightarrow> take 2 key \<noteq> ''//''"
  by (cases key rule: stripLeadingSlash.cases; cases "tl key") auto

text \<open>
  Claim C6, as the code has it. Normalising a normalised path gives the same string when
  the scope prefix is \<^verbatim>\<open>/\<close>, and in relative mode when the path does not begin with two
  separators.
\<close>

theorem normalizePath_idempotent:
  assumes "if relativePaths p then take 2 key \<noteq> ''//'' else scope p = ''/''"
  shows "normalizePath p (normalizePath p key) = normalizePath p key"
  using assms by (simp add: normalizePath_def stripLeadingSlash_idem split: if_splits)

theorem normalizePath_idempotent_witness:
  "(if relativePaths (projr (constructor defaultOptions)) then take 2 ''/js/app.js'' \<noteq> ''//''
    else scope (projr (constructor defaultOptions)) = ''/'')
   \<and> normalizePath (projr (constructor defaultOptions)) ''/js/app.js'' = ''/js/app.js''
   \<and> normalizePath (projr (constructor defaultOptions))
        (normalizePath (projr (constructor defaultOptions)) ''/js/app.js'') = ''/js/app.js''"
  using normalizePath_idempotent [of "projr (constructor defaultOptions)" "''/js/app.js''"]
  by (simp add: constructor_def defaultOptions_def updateStrategies_def addTool_def
      stripTrailingSlash_def normalizePath_def)

text \<open>
  With the scope \<^verbatim>\<open>/app/\<close> the output \<^verbatim>\<open>/app/a\<close> of the normaliser is normalised to
  \<^verbatim>\<open>/app/app/a\<close>; in relative mode its output \<^verbatim>\<open>//a\<close> is normalised to \<^verbatim>\<open>/a\<close>.
\<close>

theorem normalizePath_idempotent_counterexample:
  "\<not> isl (constructor (defaultOptions\<lparr>opt_scope := JStr ''/app/''\<rparr>))
   \<and> normalizePath (projr (constructor (defaultOptions\<lparr>opt_scope := JStr ''/app/''\<rparr>))) ''a''
       = ''/app/a''
   \<and> normalizePath (projr (constructor (defaultOptions\<lparr>opt_scope := JStr ''/app/''\<rparr>))) ''/app/a''
       = ''/app/app/a''
   \<and> \<not> isl (constructor (defaultOptions\<lparr>opt_relativePaths := JBool True\<rparr>))
   \<and> normalizePath (projr (constructor (defaultOptions\<lparr>opt_relativePaths := JBool True\<rparr>))) ''///a''
       = ''//a''
   \<and> normalizePath (projr (constructor (defaultOptions\<lparr>opt_relativePaths := JBool True\<rparr>))) ''//a''
       = ''/a''"
  by (simp add: constructor_def defaultOptions_def updateStrategies_def addTool_def
      stripTrailingSlash_def normalizePath_def)

section \<open>What the constructor makes of the options\<close>

text \<open>
  Claim C8. When the scope option is falsy (the empty string, and likewise
  \<^verbatim>\<open>undefined\<close>, \<^verbatim>\<open>null\<close>, \<^verbatim>\<open>false\<close> or 0), a constructed plugin is in relative mode
  whatever \<^verbatim>\<open>relativePaths\<close> is: its scope prefix is empty, and normalising only strips
  a leading separator.
\<close>

theorem falsy_scope_is_relative:
  assumes "\<not> truthy (opt_scope opts)"
    and "constructor opts = Inr p"
  shows "relativePaths p \<and> scope p = [] \<and> (\<forall>key. normalizePath p key = stripLeadingSlash key)
     \<and> (\<forall>as. validatePaths p as =
              map stripLeadingSlash (filter (\<lambda>asset. asset \<noteq> []) (map (rewrite p) as)))"
proof -
  from assms have "relativePaths p" "scope p = []"
    by (auto simp add: constructor_def Let_def split: if_splits)
  then show ?thesis
    by (simp add: validatePaths_def normalizePath_def cong: map_cong)
qed

theorem falsy_scope_is_relative_witness:
  "\<not> truthy (opt_scope (defaultOptions\<lparr>opt_scope := JStr ''''\<rparr>))
   \<and> opt_relativePaths (defaultOptions\<lparr>opt_scope := JStr ''''\<rparr>) = JBool False
   \<and> constructor (defaultOptions\<lparr>opt_scope := JStr ''''\<rparr>)
       = Inr (projr (constructor (defaultOptions\<lparr>opt_scope := JStr ''''\<rparr>)))
   \<and> relativePaths (projr (constructor (defaultOptions\<lparr>opt_scope := JStr ''''\<rparr>)))
   \<and> scope (projr (constructor (defaultOptions\<lparr>opt_scope := JStr ''''\<rparr>))) = []
   \<and> normalizePath (projr (constructor (defaultOptions\<lparr>opt_scope := JStr ''''\<rparr>))) ''/app.js''
       = ''app.js''"
  using falsy_scope_is_relative
    [of "defaultOptions\<lparr>opt_scope := JStr ''''\<rparr>"
        "projr (constructor (defaultOptions\<lparr>opt_scope := JStr ''''\<rparr>))"]
  by (simp add: constructor_def defaultOptions_def updateStrategies_def addTool_def)

section \<open>The keys of the bucket map\<close>

lemma concatAt_keys: "map fst (concatAt rs extra result) = map fst result"
  by (induction result) (auto simp add: concatAt_def)

lemma reduceStep_keys:
  assumes "reduceStep L p post c acc key = Inr acc'"
  shows "map fst (fst acc') = map fst (fst acc) @ filter (\<lambda>k. cacheFor c k \<noteq> []) [key]"
  using assms by (auto simp add: reduceStep_def Let_def split: if_splits sum.splits)

lemma reduceKeys_keys:
  assumes "reduceKeys L p post c keys acc = Inr acc'"
  shows "map fst (fst acc') = map fst (fst acc) @ filter (\<lambda>k. cacheFor c k \<noteq> []) keys"
  using assms
proof (induction keys arbitrary: acc)
  case Nil
  then show ?case by simp
next
  case (Cons key keys)
  from Cons.prems obtain acc1 where s: "reduceStep L p post c acc key = Inr acc1"
    and r: "reduceKeys L p post c keys acc1 = Inr acc'"
    by (auto split: sum.splits)
  from reduceStep_keys [OF s] Cons.IH [OF r] show ?case by simp
qed

lemma handleCaches_keys:
  assumes "handleCaches L p post c st = Inr r"
  shows "map fst (fst r) = filter (\<lambda>k. cacheFor c k \<noteq> []) cacheNames"
proof -
  from assms obtain r0 where r0: "reduceKeys L p post c cacheNames ([], st) = Inr r0"
    and "map fst (fst r) = map fst (fst r0)"
    by (auto simp add: handleCaches_def concatAt_keys split: sum.splits option.splits if_splits)
  with reduceKeys_keys [OF r0] show ?thesis by simp
qed

text \<open>
  Claim C10. Outside simplified mode, when \<open>setAssets\<close> returns, the keys of the bucket
  map are, in order, those of \<^verbatim>\<open>main\<close>, \<^verbatim>\<open>additional\<close>, \<^verbatim>\<open>optional\<close> whose selector list is
  a non-empty array (\<open>cacheFor\<close> is empty for an empty list and for a value that is not an
  array): such a bucket is a key whatever its list of assets is, and the others are absent.
\<close>

theorem bucket_keys:
  assumes "cachesOption p \<noteq> JStr ''all''"
    and "setAssets L p as ws = Inr (p', ws')"
  shows "\<exists>result. caches p' = Some result
     \<and> map fst result
         = filter (\<lambda>key. cacheFor (cachesOption p) key \<noteq> []) [''main'', ''additional'', ''optional'']"
  using assms
  by (auto simp add: setAssets_def Let_def cacheNames_def [symmetric] split: sum.splits
      dest: handleCaches_keys)

theorem bucket_keys_witness:
  "cachesOption (projr (constructor (defaultOptions\<lparr>opt_caches :=
       JObj [(''main'', JArr [''*.zzz'']), (''additional'', JStr ''x''),
             (''optional'', JArr [])]\<rparr>))) \<noteq> JStr ''all''
   \<and> setAssets globLibs
       (projr (constructor (defaultOptions\<lparr>opt_caches :=
          JObj [(''main'', JArr [''*.zzz'']), (''additional'', JStr ''x''),
                (''optional'', JArr [])]\<rparr>)))
       [''a.js''] []
     = Inr ((projr (constructor (defaultOptions\<lparr>opt_caches :=
          JObj [(''main'', JArr [''*.zzz'']), (''additional'', JStr ''x''),
                (''optional'', JArr [])]\<rparr>)))
              \<lparr>assets := Some [''a.js''], caches := Some [(''main'', [])]\<rparr>,
            [PatternNotMatched ''*.zzz''])
   \<and> filter (\<lambda>key. cacheFor (cachesOption (projr (constructor (defaultOptions\<lparr>opt_caches :=
          JObj [(''main'', JArr [''*.zzz'']), (''additional'', JStr ''x''),
                (''optional'', JArr [])]\<rparr>)))) key \<noteq> [])
        [''main'', ''additional'', ''optional'']
     = [''main'']"
proof -
  let ?P = "projr (constructor (defaultOptions\<lparr>opt_caches :=
          JObj [(''main'', JArr [''*.zzz'']), (''additional'', JStr ''x''),
                (''optional'', JArr [])]\<rparr>))"
  have h1: "cachesOption ?P \<noteq> JStr ''all''"
    by (simp add: ctor_defs cachesOption_def)
  have h2: "setAssets globLibs ?P [''a.js''] []
     = Inr (?P\<lparr>assets := Some [''a.js''], caches := Some [(''main'', [])]\<rparr>,
            [PatternNotMatched ''*.zzz''])"
    by (simp add: ctor_defs setAssets_def validatePaths_def raw_defs globLibs_def)
  from bucket_keys [OF h1 h2]
  have "filter (\<lambda>key. cacheFor (cachesOption ?P) key \<noteq> []) [''main'', ''additional'', ''optional'']
        = [''main'']"
    by simp
  with h1 h2 show ?thesis by blast
qed

section \<open>Where the entries of a bucket come from\<close>

lemma passedThrough_mono:
  assumes "passedThrough L p ks ws x" "set ks \<subseteq> set ks'" "set ws \<subseteq> set ws'"
  shows "passedThrough L p ks' ws' x"
  using assms by (auto simp add: passedThrough_def)

lemma in_remove1D: "x \<in> set (remove1 k xs) \<Longrightarrow> x \<in> set xs"
  using set_remove1_subset [of k xs] by blast

lemma cacheKeyStep_prov:
  assumes "cacheKeyStep L p key (cr, st) k = Inr (cr', st')"
  shows "set (pool st') \<subseteq> set (pool st)"
    and "set (warnings st) \<subseteq> set (warnings st')"
    and "\<forall>x\<in>set cr'. x \<in> set cr \<or> x \<in> set (pool st) \<or> passedThrough L p [k] (warnings st') x"
    and "distinct (pool st) \<Longrightarrow> distinct (pool st')"
    and "distinct (pool st) \<Longrightarrow> \<forall>x\<in>set cr'. x \<in> set cr \<or> x \<notin> set (pool st')"
proof -
  show "set (pool st') \<subseteq> set (pool st)"
    using assms
    by (auto simp add: cacheKeyStep_def Let_def globScan_filter
        split: if_splits option.splits dest: in_remove1D)
  show "set (warnings st) \<subseteq> set (warnings st')"
    using assms
    by (auto simp add: cacheKeyStep_def Let_def globScan_filter split: if_splits option.splits)
  show "\<forall>x\<in>set cr'. x \<in> set cr \<or> x \<in> set (pool st) \<or> passedThrough L p [k] (warnings st') x"
    using assms
    by (auto simp add: cacheKeyStep_def Let_def globScan_filter passedThrough_def
        split: if_splits option.splits)
  show "distinct (pool st')" if "distinct (pool st)"
    using assms that
    by (auto simp add: cacheKeyStep_def Let_def globScan_filter split: if_splits option.splits)
  show "\<forall>x\<in>set cr'. x \<in> set cr \<or> x \<notin> set (pool st')" if "distinct (pool st)"
    using assms that
    by (auto simp add: cacheKeyStep_def Let_def globScan_filter split: if_splits option.splits)
qed

lemma cacheSome_prov:
  assumes "cacheSome L p key ks (cr, st) = Inr (cr', st')"
  shows "set (pool st') \<subseteq> set (pool st)
    \<and> set (warnings st) \<subseteq> set (warnings st')
    \<and> (\<forall>x\<in>set cr'. x \<in> set cr \<or> x \<in> set (pool st) \<or> passedThrough L p ks (warnings st') x)
    \<and> (distinct (pool st) \<longrightarrow> distinct (pool st') \<and> (\<forall>x\<in>set cr'. x \<in> set cr \<or> x \<notin> set (pool st')))"
  using assms
proof (induction ks arbitrary: cr st)
  case Nil
  then show ?case by simp
next
  case (Cons k ks)
  from Cons.prems obtain cr1 st1 where s: "cacheKeyStep L p key (cr, st) k = Inr (cr1, st1)"
    and r: "cacheSome L p key ks (cr1, st1) = Inr (cr', st')"
    by (auto split: sum.splits)
  note a = cacheKeyStep_prov [OF s]
  note b = Cons.IH [OF r]
  have 1: "set (pool st') \<subseteq> set (pool st)" using a(1) b by blast
  have 2: "set (warnings st) \<subseteq> set (warnings st')" using a(2) b by blast
  have 3: "x \<in> set cr \<or> x \<in> set (pool st) \<or> passedThrough L p (k # ks) (warnings st') x"
    if "x \<in> set cr'" for x
  proof -
    from that b have "x \<in> set cr1 \<or> x \<in> set (pool st1) \<or> passedThrough L p ks (warnings st') x"
      by blast
    then show ?thesis
    proof (elim disjE)
      assume "x \<in> set cr1"
      with a(3) have "x \<in> set cr \<or> x \<in> set (pool st) \<or> passedThrough L p [k] (warnings st1) x"
        by blast
      moreover have "set (warnings st1) \<subseteq> set (warnings st')" using b by blast
      ultimately show ?thesis
        by (auto intro: passedThrough_mono [where ks="[k]" and ws="warnings st1"])
    next
      assume "x \<in> set (pool st1)"
      with a(1) show ?thesis by blast
    next
      assume "passedThrough L p ks (warnings st') x"
      then show ?thesis by (auto intro: passedThrough_mono [where ks=ks and ws="warnings st'"])
    qed
  qed
  have 4: "distinct (pool st') \<and> (\<forall>x\<in>set cr'. x \<in> set cr \<or> x \<notin> set (pool st'))"
    if d: "distinct (pool st)"
  proof -
    from a(4) [OF d] have d1: "distinct (pool st1)" .
    with b have d2: "distinct (pool st')" and c: "\<forall>x\<in>set cr'. x \<in> set cr1 \<or> x \<notin> set (pool st')"
      by blast+
    have sub: "set (pool st') \<subseteq> set (pool st1)" using b by blast
    from a(5) [OF d] c sub have "\<forall>x\<in>set cr'. x \<in> set cr \<or> x \<notin> set (pool st')" by blast
    with d2 show ?thesis by simp
  qed
  from 1 2 3 4 show ?case by blast
qed

lemma reduceStep_inv:
  assumes inv: "partInv L p c PB pool0 acc"
    and step: "reduceStep L p (\<lambda>xs. xs) c acc key = Inr acc'"
    and pb: "PB key = pool (snd acc)"
  shows "partInv L p c PB pool0 acc'"
proof (cases "cacheFor c key = []")
  case True
  with step have "acc' = acc" by (cases acc) (simp add: reduceStep_def)
  with inv show ?thesis by simp
next
  case False
  obtain res st where acc: "acc = (res, st)" by (cases acc)
  from step False acc obtain r st' where cs: "cacheSome L p key (cacheFor c key) ([], st) = Inr (r, st')"
    and acc': "acc' = (res @ [(key, r)], st')"
    by (auto simp add: reduceStep_def Let_def split: sum.splits)
  from pb acc have pbk: "PB key = pool st" by simp
  from cacheSome_prov [OF cs]
  have sub: "set (pool st') \<subseteq> set (pool st)"
    and ws: "set (warnings st) \<subseteq> set (warnings st')"
    and new: "\<forall>x\<in>set r. x \<in> set (pool st) \<or> passedThrough L p (cacheFor c key) (warnings st') x"
    and dis: "distinct (pool st) \<longrightarrow> distinct (pool st') \<and> (\<forall>x\<in>set r. x \<notin> set (pool st'))"
    by simp_all
  from inv acc have i1: "set (pool st) \<subseteq> set pool0"
    and i2: "\<forall>kr\<in>set res. set (pool st) \<subseteq> set (PB (fst kr)) \<and> set (PB (fst kr)) \<subseteq> set pool0
            \<and> (\<forall>x\<in>set (snd kr).
                  x \<in> set (PB (fst kr)) \<or> passedThrough L p (cacheFor c (fst kr)) (warnings st) x)"
    and i3: "distinct pool0 \<longrightarrow> distinct (pool st)
            \<and> (\<forall>kr\<in>set res. \<forall>x\<in>set (snd kr). x \<notin> set (pool st))
            \<and> (\<forall>kr\<in>set res. \<forall>kr'\<in>set res. fst kr \<noteq> fst kr' \<longrightarrow>
                  (\<forall>x. x \<in> set (snd kr) \<and> x \<in> set (snd kr') \<longrightarrow>
                     (x \<notin> set (PB (fst kr))
                      \<and> passedThrough L p (cacheFor c (fst kr)) (warnings st) x)
                     \<or> (x \<notin> set (PB (fst kr'))
                      \<and> passedThrough L p (cacheFor c (fst kr')) (warnings st) x)))"
    by (simp_all add: partInv_def)
  have up: "passedThrough L p ks (warnings st') x" if "passedThrough L p ks (warnings st) x" for ks x
    using that ws by (auto intro: passedThrough_mono)
  have g1: "set (pool st') \<subseteq> set pool0" using sub i1 by blast
  have g2: "set (pool st') \<subseteq> set (PB (fst kr)) \<and> set (PB (fst kr)) \<subseteq> set pool0
            \<and> (\<forall>x\<in>set (snd kr).
                  x \<in> set (PB (fst kr)) \<or> passedThrough L p (cacheFor c (fst kr)) (warnings st') x)"
    if "kr \<in> set (res @ [(key, r)])" for kr
  proof (cases "kr \<in> set res")
    case True
    with i2 sub up show ?thesis by blast
  next
    case False
    with that have "kr = (key, r)" by simp
    with new i1 sub pbk show ?thesis by auto
  qed
  have g3: "distinct (pool st')
            \<and> (\<forall>kr\<in>set (res @ [(key, r)]). \<forall>x\<in>set (snd kr). x \<notin> set (pool st'))
            \<and> (\<forall>kr\<in>set (res @ [(key, r)]). \<forall>kr'\<in>set (res @ [(key, r)]). fst kr \<noteq> fst kr' \<longrightarrow>
                  (\<forall>x. x \<in> set (snd kr) \<and> x \<in> set (snd kr') \<longrightarrow>
                     (x \<notin> set (PB (fst kr))
                      \<and> passedThrough L p (cacheFor c (fst kr)) (warnings st') x)
                     \<or> (x \<notin> set (PB (fst kr'))
                      \<and> passedThrough L p (cacheFor c (fst kr')) (warnings st') x)))"
    if d0: "distinct pool0"
  proof -
    from i3 d0 have d: "distinct (pool st)"
      and old: "\<forall>kr\<in>set res. \<forall>x\<in>set (snd kr). x \<notin> set (pool st)"
      and pw: "\<forall>kr\<in>set res. \<forall>kr'\<in>set res. fst kr \<noteq> fst kr' \<longrightarrow>
                  (\<forall>x. x \<in> set (snd kr) \<and> x \<in> set (snd kr') \<longrightarrow>
                     (x \<notin> set (PB (fst kr))
                      \<and> passedThrough L p (cacheFor c (fst kr)) (warnings st) x)
                     \<or> (x \<notin> set (PB (fst kr'))
                      \<and> passedThrough L p (cacheFor c (fst kr')) (warnings st) x))"
      by blast+
    from dis d have d': "distinct (pool st')" and fresh: "\<forall>x\<in>set r. x \<notin> set (pool st')"
      by blast+
    have a: "\<forall>kr\<in>set (res @ [(key, r)]). \<forall>x\<in>set (snd kr). x \<notin> set (pool st')"
      using old sub fresh by auto
    have newpt: "x \<notin> set (PB key) \<and> passedThrough L p (cacheFor c key) (warnings st') x"
      if "x \<in> set r" "kr \<in> set res" "x \<in> set (snd kr)" for x kr
      using that old new pbk by auto
    have b: "(x \<notin> set (PB (fst kr)) \<and> passedThrough L p (cacheFor c (fst kr)) (warnings st') x)
           \<or> (x \<notin> set (PB (fst kr')) \<and> passedThrough L p (cacheFor c (fst kr')) (warnings st') x)"
      if "kr \<in> set (res @ [(key, r)])" "kr' \<in> set (res @ [(key, r)])" "fst kr \<noteq> fst kr'"
        "x \<in> set (snd kr)" "x \<in> set (snd kr')" for kr kr' x
    proof (cases "kr \<in> set res")
      case True
      show ?thesis
      proof (cases "kr' \<in> set res")
        case True
        with \<open>kr \<in> set res\<close> pw that(3,4,5) up show ?thesis by blast
      next
        case False
        with that(2) have "kr' = (key, r)" by simp
        with newpt [of x kr] True that(4,5) show ?thesis by simp
      qed
    next
      case False
      with that(1) have kr: "kr = (key, r)" by simp
      with that(2,3) have "kr' \<in> set res" by auto
      with newpt [of x kr'] kr that(4,5) show ?thesis by simp
    qed
    from d' a b show ?thesis by blast
  qed
  from g1 g2 g3 show ?thesis
    unfolding partInv_def acc' fst_conv snd_conv by blast
qed

lemma reduceKeys_inv:
  assumes "partInv L p c PB pool0 acc"
    and "reduceKeys L p (\<lambda>xs. xs) c keys acc = Inr acc'"
    and "\<And>kpre k kpost a. keys = kpre @ k # kpost \<Longrightarrow>
            reduceKeys L p (\<lambda>xs. xs) c kpre acc = Inr a \<Longrightarrow> PB k = pool (snd a)"
  shows "partInv L p c PB pool0 acc'"
  using assms
proof (induction keys arbitrary: acc)
  case Nil
  then show ?case by simp
next
  case (Cons key keys)
  from Cons.prems(2) obtain acc1 where s: "reduceStep L p (\<lambda>xs. xs) c acc key = Inr acc1"
    and r: "reduceKeys L p (\<lambda>xs. xs) c keys acc1 = Inr acc'"
    by (auto split: sum.splits)
  have "PB key = pool (snd acc)"
    using Cons.prems(3) [of "[]" key keys acc] by simp
  from reduceStep_inv [OF Cons.prems(1) s this] have inv1: "partInv L p c PB pool0 acc1" .
  have pb1: "PB k = pool (snd a)"
    if "keys = kpre @ k # kpost" "reduceKeys L p (\<lambda>xs. xs) c kpre acc1 = Inr a" for kpre k kpost a
    using Cons.prems(3) [of "key # kpre" k kpost a] that s by simp
  from inv1 r pb1 show ?case by (rule Cons.IH)
qed

lemma partInv_init:
  "partInv L p c PB pool0 ([], \<lparr>pool = pool0, restSection = None, warnings = ws\<rparr>)"
  by (simp add: partInv_def)

lemma in_concatAt:
  "kr \<in> set (concatAt rs extra result) \<longleftrightarrow>
     (\<exists>kr0\<in>set result. fst kr = fst kr0
        \<and> snd kr = (if fst kr0 = rs then snd kr0 @ extra else snd kr0))"
  by (auto simp add: concatAt_def image_iff prod_eq_iff)

lemma concatAt_inv:
  assumes "partInv L p c PB pool0 (res, st)"
  shows "partInv L p c PB pool0 (concatAt rs (pool st) res, st\<lparr>pool := []\<rparr>)"
proof -
  from assms have i2: "\<forall>kr\<in>set res. set (pool st) \<subseteq> set (PB (fst kr)) \<and> set (PB (fst kr)) \<subseteq> set pool0
            \<and> (\<forall>x\<in>set (snd kr).
                  x \<in> set (PB (fst kr)) \<or> passedThrough L p (cacheFor c (fst kr)) (warnings st) x)"
    and i3: "distinct pool0 \<longrightarrow>
            (\<forall>kr\<in>set res. \<forall>x\<in>set (snd kr). x \<notin> set (pool st))
            \<and> (\<forall>kr\<in>set res. \<forall>kr'\<in>set res. fst kr \<noteq> fst kr' \<longrightarrow>
                  (\<forall>x. x \<in> set (snd kr) \<and> x \<in> set (snd kr') \<longrightarrow>
                     (x \<notin> set (PB (fst kr))
                      \<and> passedThrough L p (cacheFor c (fst kr)) (warnings st) x)
                     \<or> (x \<notin> set (PB (fst kr'))
                      \<and> passedThrough L p (cacheFor c (fst kr')) (warnings st) x)))"
    by (simp_all add: partInv_def)
  have g2: "set (PB (fst kr)) \<subseteq> set pool0
            \<and> (\<forall>x\<in>set (snd kr).
                  x \<in> set (PB (fst kr)) \<or> passedThrough L p (cacheFor c (fst kr)) (warnings st) x)"
    if "kr \<in> set (concatAt rs (pool st) res)" for kr
  proof -
    from that obtain kr0 where k: "kr0 \<in> set res" "fst kr = fst kr0"
      "snd kr = (if fst kr0 = rs then snd kr0 @ pool st else snd kr0)"
      by (auto simp add: in_concatAt)
    then have m: "\<forall>x\<in>set (snd kr). x \<in> set (snd kr0) \<or> x \<in> set (pool st)"
      by (auto split: if_splits)
    from i2 k(1) have "set (pool st) \<subseteq> set (PB (fst kr0))" "set (PB (fst kr0)) \<subseteq> set pool0"
      "\<forall>x\<in>set (snd kr0).
          x \<in> set (PB (fst kr0)) \<or> passedThrough L p (cacheFor c (fst kr0)) (warnings st) x"
      by blast+
    with m show ?thesis unfolding k(2) by blast
  qed
  have g3: "(x \<notin> set (PB (fst kr)) \<and> passedThrough L p (cacheFor c (fst kr)) (warnings st) x)
           \<or> (x \<notin> set (PB (fst kr')) \<and> passedThrough L p (cacheFor c (fst kr')) (warnings st) x)"
    if d0: "distinct pool0" and m: "kr \<in> set (concatAt rs (pool st) res)"
      "kr' \<in> set (concatAt rs (pool st) res)" and ne: "fst kr \<noteq> fst kr'"
      and x: "x \<in> set (snd kr)" "x \<in> set (snd kr')" for kr kr' x
  proof -
    from m(1) obtain k0 where k: "k0 \<in> set res" "fst kr = fst k0"
      "snd kr = (if fst k0 = rs then snd k0 @ pool st else snd k0)"
      by (auto simp add: in_concatAt)
    from m(2) obtain k0' where k': "k0' \<in> set res" "fst kr' = fst k0'"
      "snd kr' = (if fst k0' = rs then snd k0' @ pool st else snd k0')"
      by (auto simp add: in_concatAt)
    from i3 d0 have old: "\<forall>kr\<in>set res. \<forall>x\<in>set (snd kr). x \<notin> set (pool st)"
      and pw: "\<forall>kr\<in>set res. \<forall>kr'\<in>set res. fst kr \<noteq> fst kr' \<longrightarrow>
                  (\<forall>x. x \<in> set (snd kr) \<and> x \<in> set (snd kr') \<longrightarrow>
                     (x \<notin> set (PB (fst kr))
                      \<and> passedThrough L p (cacheFor c (fst kr)) (warnings st) x)
                     \<or> (x \<notin> set (PB (fst kr'))
                      \<and> passedThrough L p (cacheFor c (fst kr')) (warnings st) x))"
      by blast+
    from ne k(2) k'(2) have ne0: "fst k0 \<noteq> fst k0'" by simp
    have "x \<in> set (snd k0) \<and> x \<in> set (snd k0')"
    proof (cases "fst k0 = rs")
      case True
      with ne0 have "fst k0' \<noteq> rs" by simp
      with k'(3) x(2) have b: "x \<in> set (snd k0')" by simp
      with old k'(1) have "x \<notin> set (pool st)" by blast
      with True k(3) x(1) have "x \<in> set (snd k0)" by simp
      with b show ?thesis by simp
    next
      case False
      with k(3) x(1) have a: "x \<in> set (snd k0)" by simp
      with old k(1) have "x \<notin> set (pool st)" by blast
      with k'(3) x(2) have "x \<in> set (snd k0')" by (simp split: if_splits)
      with a show ?thesis by simp
    qed
    with pw k(1) k'(1) ne0 k(2) k'(2) show ?thesis by simp
  qed
  from g2 g3 show ?thesis
    unfolding partInv_def fst_conv snd_conv by simp
qed

lemma takeWhile_split:
  assumes "k \<notin> set kpre"
  shows "takeWhile (\<lambda>j. j \<noteq> k) (kpre @ k # kpost) = kpre"
  using assms by (induction kpre) auto

lemma poolWhen_reduced:
  assumes "cacheNames = kpre @ k # kpost"
    and "reduceKeys L p (\<lambda>xs. xs) (cachesOption p) kpre
           ([], \<lparr>pool = excludeAssets L (opt_excludes (options p)) as,
                 restSection = None, warnings = ws\<rparr>) = Inr a"
  shows "poolWhen L p as ws k = pool (snd a)"
proof -
  have "distinct cacheNames" by (simp add: cacheNames_def)
  then have "distinct (kpre @ k # kpost)" unfolding assms(1) .
  then have "k \<notin> set kpre" by simp
  then have "takeWhile (\<lambda>j. j \<noteq> k) cacheNames = kpre"
    unfolding assms(1) by (rule takeWhile_split)
  with assms(2) show ?thesis
    by (simp add: poolWhen_def reached_def)
qed

lemma rawCaches_inv:
  assumes "rawCaches L p as ws = Inr (result, st)"
  shows "partInv L p (cachesOption p) (poolWhen L p as ws)
           (excludeAssets L (opt_excludes (options p)) as) (result, st\<lparr>pool := []\<rparr>)"
proof -
  let ?c = "cachesOption p"
  let ?pool0 = "excludeAssets L (opt_excludes (options p)) as"
  let ?st0 = "\<lparr>pool = ?pool0, restSection = None, warnings = ws\<rparr>"
  let ?PB = "poolWhen L p as ws"
  from assms obtain r0 where r0:
    "reduceKeys L p (\<lambda>xs. xs) ?c cacheNames ([], ?st0) = Inr r0"
    by (auto simp add: rawCaches_def handleCaches_def split: sum.splits)
  have "partInv L p ?c ?PB ?pool0 r0"
    using partInv_init r0
  proof (rule reduceKeys_inv)
    fix kpre k kpost a
    assume "cacheNames = kpre @ k # kpost"
      and "reduceKeys L p (\<lambda>xs. xs) ?c kpre ([], ?st0) = Inr a"
    then show "?PB k = pool (snd a)" by (rule poolWhen_reduced)
  qed
  then have inv: "partInv L p ?c ?PB ?pool0 (fst r0, snd r0)" by simp
  from concatAt_inv [OF inv] have c: "partInv L p ?c ?PB ?pool0
      (concatAt rs (pool (snd r0)) (fst r0), snd r0\<lparr>pool := []\<rparr>)" for rs .
  from inv have e: "partInv L p ?c ?PB ?pool0 (fst r0, snd r0\<lparr>pool := []\<rparr>)"
    by (simp add: partInv_def)
  from assms r0 c e show ?thesis
    by (auto simp add: rawCaches_def handleCaches_def split: option.splits if_splits)
qed

lemma excludeAssets_distinct: "distinct as \<Longrightarrow> distinct (excludeAssets L ex as)"
  by (simp add: excludeAssets_def split: jsval.splits)

lemma excludeAssets_excluded:
  assumes "ex = JArr globs" "list_ex (\<lambda>glob. minimatch L x glob) globs"
  shows "x \<notin> set (excludeAssets L ex as)"
  using assms by (auto simp add: excludeAssets_def)

text \<open>
  Claim C1, as the code has it. With or without a remainder sentinel: every entry of a
  bucket, before rewriting and normalisation, is an asset of the pool the bucket met when
  it was reached (so an asset that no exclude pattern removed), or a literal selector of
  that bucket that this pool did not hold, passed through (its name is in the externals or
  its missing-asset warning was emitted). When the assets have no duplicates (they are the
  keys of an object), an entry of two different buckets is, in one of the two, such a
  passed-through literal that the pool did not hold when that bucket was reached: no asset
  is taken from the pool twice.
\<close>

theorem bucket_entries_provenance:
  assumes "rawCaches L p as ws = Inr (result, st)"
  shows "(\<forall>kr\<in>set result.
            set (poolWhen L p as ws (fst kr)) \<subseteq> set (excludeAssets L (opt_excludes (options p)) as)
            \<and> (\<forall>x\<in>set (snd kr).
                  x \<in> set (poolWhen L p as ws (fst kr))
                  \<or> (x \<notin> set (poolWhen L p as ws (fst kr))
                      \<and> passedThrough L p (cacheFor (cachesOption p) (fst kr)) (warnings st) x)))
     \<and> (distinct as \<longrightarrow>
          (\<forall>kr\<in>set result. \<forall>kr'\<in>set result. fst kr \<noteq> fst kr' \<longrightarrow>
            (\<forall>x. x \<in> set (snd kr) \<and> x \<in> set (snd kr') \<longrightarrow>
               (x \<notin> set (poolWhen L p as ws (fst kr))
                \<and> passedThrough L p (cacheFor (cachesOption p) (fst kr)) (warnings st) x)
               \<or> (x \<notin> set (poolWhen L p as ws (fst kr'))
                \<and> passedThrough L p (cacheFor (cachesOption p) (fst kr')) (warnings st) x))))"
proof -
  note inv = rawCaches_inv [OF assms]
  from inv have a: "\<forall>kr\<in>set result.
            set (poolWhen L p as ws (fst kr)) \<subseteq> set (excludeAssets L (opt_excludes (options p)) as)
            \<and> (\<forall>x\<in>set (snd kr).
                  x \<in> set (poolWhen L p as ws (fst kr))
                  \<or> passedThrough L p (cacheFor (cachesOption p) (fst kr)) (warnings st) x)"
    by (simp add: partInv_def)
  from inv excludeAssets_distinct [of as L "opt_excludes (options p)"]
  have b: "distinct as \<longrightarrow>
          (\<forall>kr\<in>set result. \<forall>kr'\<in>set result. fst kr \<noteq> fst kr' \<longrightarrow>
            (\<forall>x. x \<in> set (snd kr) \<and> x \<in> set (snd kr') \<longrightarrow>
               (x \<notin> set (poolWhen L p as ws (fst kr))
                \<and> passedThrough L p (cacheFor (cachesOption p) (fst kr)) (warnings st) x)
               \<or> (x \<notin> set (poolWhen L p as ws (fst kr'))
                \<and> passedThrough L p (cacheFor (cachesOption p) (fst kr')) (warnings st) x)))"
    by (simp add: partInv_def)
  from a b show ?thesis by blast
qed

text \<open>
  Claim C7, as the code has it. An asset that an exclude pattern matches is not in the pool
  the partitioning starts from, and it is an entry of a bucket, before rewriting and
  normalisation, only as a literal selector of that bucket passed through: no glob selector
  and no remainder sentinel puts it there.
\<close>

theorem excluded_asset_only_as_literal:
  assumes "opt_excludes (options p) = JArr globs"
    and "list_ex (\<lambda>glob. minimatch L x glob) globs"
    and "rawCaches L p as ws = Inr (result, st)"
  shows "x \<notin> set (excludeAssets L (opt_excludes (options p)) as)
     \<and> (\<forall>kr\<in>set result. x \<in> set (snd kr) \<longrightarrow>
            passedThrough L p (cacheFor (cachesOption p) (fst kr)) (warnings st) x)"
proof -
  note inv = rawCaches_inv [OF assms(3)]
  from excludeAssets_excluded [OF assms(1,2)]
  have ex: "x \<notin> set (excludeAssets L (opt_excludes (options p)) as)" .
  from inv have "\<forall>kr\<in>set result.
            set (poolWhen L p as ws (fst kr)) \<subseteq> set (excludeAssets L (opt_excludes (options p)) as)
            \<and> (\<forall>x\<in>set (snd kr).
                  x \<in> set (poolWhen L p as ws (fst kr))
                  \<or> passedThrough L p (cacheFor (cachesOption p) (fst kr)) (warnings st) x)"
    by (simp add: partInv_def)
  with ex show ?thesis by blast
qed


section \<open>A selector in the run\<close>

text \<open>The run splits at a bucket and, within the bucket, at a selector; results
  and warnings are only ever extended.\<close>

lemma cacheSome_append:
  "cacheSome L p key (xs @ ys) acc =
     (case cacheSome L p key xs acc of Inl e \<Rightarrow> Inl e | Inr a \<Rightarrow> cacheSome L p key ys a)"
  by (induction xs arbitrary: acc) (auto split: sum.splits)

lemma reduceKeys_append:
  "reduceKeys L p post c (xs @ ys) acc =
     (case reduceKeys L p post c xs acc of Inl e \<Rightarrow> Inl e | Inr a \<Rightarrow> reduceKeys L p post c ys a)"
  by (induction xs arbitrary: acc) (auto split: sum.splits)

lemma cacheKeyStep_ext:
  assumes "cacheKeyStep L p key (cr, st) k = Inr (cr', st')"
  shows "\<exists>n w. cr' = cr @ n \<and> warnings st' = warnings st @ w"
  using assms
  by (auto simp add: cacheKeyStep_def Let_def globScan_filter split: if_splits option.splits)

lemma cacheSome_ext:
  assumes "cacheSome L p key ks (cr, st) = Inr (cr', st')"
  shows "\<exists>n w. cr' = cr @ n \<and> warnings st' = warnings st @ w"
  using assms
proof (induction ks arbitrary: cr st)
  case Nil
  then show ?case by simp
next
  case (Cons k ks)
  from Cons.prems obtain cr1 st1 where s: "cacheKeyStep L p key (cr, st) k = Inr (cr1, st1)"
    and r: "cacheSome L p key ks (cr1, st1) = Inr (cr', st')"
    by (auto split: sum.splits)
  from cacheKeyStep_ext [OF s] Cons.IH [OF r] show ?case by auto
qed

lemma reduceStep_ext:
  assumes "reduceStep L p post c acc key = Inr acc'"
  shows "\<exists>new w. fst acc' = fst acc @ new \<and> fst ` set new \<subseteq> {key}
           \<and> warnings (snd acc') = warnings (snd acc) @ w"
proof (cases "cacheFor c key = []")
  case True
  with assms show ?thesis by (auto simp add: reduceStep_def)
next
  case False
  with assms obtain r st' where cs: "cacheSome L p key (cacheFor c key) ([], snd acc) = Inr (r, st')"
    and acc': "acc' = (fst acc @ [(key, post r)], st')"
    by (auto simp add: reduceStep_def Let_def split: sum.splits)
  from cacheSome_ext [OF cs] obtain w where "warnings st' = warnings (snd acc) @ w" by blast
  with acc' show ?thesis by auto
qed

lemma reduceKeys_ext:
  assumes "reduceKeys L p post c ks acc = Inr acc'"
  shows "\<exists>new w. fst acc' = fst acc @ new \<and> fst ` set new \<subseteq> set ks
           \<and> warnings (snd acc') = warnings (snd acc) @ w"
  using assms
proof (induction ks arbitrary: acc)
  case Nil
  then show ?case by simp
next
  case (Cons key ks)
  from Cons.prems obtain acc1 where s: "reduceStep L p post c acc key = Inr acc1"
    and r: "reduceKeys L p post c ks acc1 = Inr acc'"
    by (auto split: sum.splits)
  from reduceStep_ext [OF s] obtain n1 w1 where 1: "fst acc1 = fst acc @ n1"
    "fst ` set n1 \<subseteq> {key}" "warnings (snd acc1) = warnings (snd acc) @ w1" by blast
  from Cons.IH [OF r] obtain n2 w2 where 2: "fst acc' = fst acc1 @ n2"
    "fst ` set n2 \<subseteq> set ks" "warnings (snd acc') = warnings (snd acc1) @ w2" by blast
  have "fst acc' = fst acc @ (n1 @ n2)" using 1(1) 2(1) by simp
  moreover have "fst ` set (n1 @ n2) \<subseteq> set (key # ks)" using 1(2) 2(2) by auto
  moreover have "warnings (snd acc') = warnings (snd acc) @ (w1 @ w2)" using 1(3) 2(3) by simp
  ultimately show ?case by blast
qed

lemma reduceStep_fresh:
  assumes "reduceStep L p (\<lambda>xs. xs) c acc key = Inr acc'"
  shows "set (pool (snd acc')) \<subseteq> set (pool (snd acc))"
    and "distinct (pool (snd acc)) \<Longrightarrow>
           \<forall>kr\<in>set (fst acc). \<forall>x\<in>set (snd kr). x \<notin> set (pool (snd acc)) \<Longrightarrow>
           distinct (pool (snd acc'))
           \<and> (\<forall>kr\<in>set (fst acc'). \<forall>x\<in>set (snd kr). x \<notin> set (pool (snd acc')))"
proof -
  show "set (pool (snd acc')) \<subseteq> set (pool (snd acc))"
  proof (cases "cacheFor c key = []")
    case True
    with assms show ?thesis by (auto simp add: reduceStep_def)
  next
    case False
    with assms obtain r st' where cs: "cacheSome L p key (cacheFor c key) ([], snd acc) = Inr (r, st')"
      and acc': "acc' = (fst acc @ [(key, r)], st')"
      by (auto simp add: reduceStep_def Let_def split: sum.splits)
    from cacheSome_prov [OF cs] acc' show ?thesis by simp
  qed
  show "distinct (pool (snd acc'))
           \<and> (\<forall>kr\<in>set (fst acc'). \<forall>x\<in>set (snd kr). x \<notin> set (pool (snd acc')))"
    if d: "distinct (pool (snd acc))"
      and f: "\<forall>kr\<in>set (fst acc). \<forall>x\<in>set (snd kr). x \<notin> set (pool (snd acc))"
  proof (cases "cacheFor c key = []")
    case True
    with assms have "acc' = acc" by (cases acc) (simp add: reduceStep_def)
    with d f show ?thesis by simp
  next
    case False
    with assms obtain r st' where cs: "cacheSome L p key (cacheFor c key) ([], snd acc) = Inr (r, st')"
      and acc': "acc' = (fst acc @ [(key, r)], st')"
      by (auto simp add: reduceStep_def Let_def split: sum.splits)
    from cacheSome_prov [OF cs] d
    have "set (pool st') \<subseteq> set (pool (snd acc))" "distinct (pool st')"
      "\<forall>x\<in>set r. x \<notin> set (pool st')"
      by simp_all
    with f acc' show ?thesis by auto
  qed
qed

lemma reduceKeys_fresh:
  assumes "reduceKeys L p (\<lambda>xs. xs) c ks acc = Inr acc'"
  shows "set (pool (snd acc')) \<subseteq> set (pool (snd acc))
    \<and> (distinct (pool (snd acc)) \<longrightarrow>
           (\<forall>kr\<in>set (fst acc). \<forall>x\<in>set (snd kr). x \<notin> set (pool (snd acc))) \<longrightarrow>
           distinct (pool (snd acc'))
           \<and> (\<forall>kr\<in>set (fst acc'). \<forall>x\<in>set (snd kr). x \<notin> set (pool (snd acc'))))"
  using assms
proof (induction ks arbitrary: acc)
  case Nil
  then show ?case by simp
next
  case (Cons key ks)
  from Cons.prems obtain acc1 where s: "reduceStep L p (\<lambda>xs. xs) c acc key = Inr acc1"
    and r: "reduceKeys L p (\<lambda>xs. xs) c ks acc1 = Inr acc'"
    by (auto split: sum.splits)
  from reduceStep_fresh [OF s] Cons.IH [OF r] show ?case by blast
qed

lemma map_of_concatAt:
  "map_of (concatAt rs extra result) key
   = map_option (\<lambda>v. if key = rs then v @ extra else v) (map_of result key)"
  by (induction result) (auto simp add: concatAt_def)

lemma map_of_post:
  "map_of (map (\<lambda>kr. (fst kr, f (snd kr))) result) key = map_option f (map_of result key)"
  by (induction result) auto

lemma map_of_fresh_key:
  assumes "key \<notin> fst ` set xs"
  shows "map_of (xs @ (key, r) # ys) key = Some r"
  using assms by (induction xs) auto


lemma literal_in_run:
  assumes run: "rawCaches L p as ws = Inr (result, st)"
    and names: "cacheNames = kpre @ key # kpost"
    and sel: "cacheFor (cachesOption p) key = pre @ x # post"
  shows "\<exists>earlier cr s.
           reached L p as ws kpre key pre = Inr (earlier, cr, s)
           \<and> set (pool s) \<subseteq> set (excludeAssets L (opt_excludes (options p)) as)
           \<and> (distinct as \<longrightarrow>
                (\<forall>y. y \<in> set cr \<or> (\<exists>kr\<in>set earlier. y \<in> set (snd kr)) \<longrightarrow> y \<notin> set (pool s)))
           \<and> (x \<noteq> REST_KEY p \<and> hasMagic L x = None \<and> x \<notin> set (pool s) \<longrightarrow>
                reached L p as ws kpre key (pre @ [x])
                  = Inr (earlier, cr @ [x],
                         s\<lparr>warnings := warnings s @
                              (if x \<in> set (externals p) then [] else [AssetNotFound x])\<rparr>)
                \<and> (\<exists>more later.
                      map_of result key = Some (cr @ x # more)
                      \<and> warnings st = warnings s @
                           (if x \<in> set (externals p) then [] else [AssetNotFound x]) @ later))"
proof -
  let ?c = "cachesOption p"
  let ?pool0 = "excludeAssets L (opt_excludes (options p)) as"
  let ?st0 = "\<lparr>pool = ?pool0, restSection = None, warnings = ws\<rparr>"
  let ?W = "if x \<in> set (externals p) then [] else [AssetNotFound x]"
  from run obtain a3 where a3: "reduceKeys L p (\<lambda>xs. xs) ?c cacheNames ([], ?st0) = Inr a3"
    and st: "st = snd a3"
    and res: "result = fst a3 \<or> (\<exists>rs. result = concatAt rs (pool (snd a3)) (fst a3))"
    by (auto simp add: rawCaches_def handleCaches_def split: sum.splits option.splits if_splits)
  from a3 obtain a1 where a1: "reduceKeys L p (\<lambda>xs. xs) ?c kpre ([], ?st0) = Inr a1"
    and r2: "reduceKeys L p (\<lambda>xs. xs) ?c (key # kpost) a1 = Inr a3"
    unfolding names reduceKeys_append by (auto split: sum.splits)
  from r2 obtain a2 where s2: "reduceStep L p (\<lambda>xs. xs) ?c a1 key = Inr a2"
    and r3: "reduceKeys L p (\<lambda>xs. xs) ?c kpost a2 = Inr a3"
    by (auto split: sum.splits)
  from s2 sel obtain r s2' where cs: "cacheSome L p key (pre @ x # post) ([], snd a1) = Inr (r, s2')"
    and a2: "a2 = (fst a1 @ [(key, r)], s2')"
    by (auto simp add: reduceStep_def Let_def split: sum.splits)
  from cs obtain cr s where b: "cacheSome L p key pre ([], snd a1) = Inr (cr, s)"
    and cs2: "cacheSome L p key (x # post) (cr, s) = Inr (r, s2')"
    unfolding cacheSome_append by (auto split: sum.splits)
  have reach: "reached L p as ws kpre key pre = Inr (fst a1, cr, s)"
    by (simp add: reached_def a1 b)
  from reduceKeys_fresh [OF a1] have sub1: "set (pool (snd a1)) \<subseteq> set ?pool0" by simp
  from cacheSome_prov [OF b] have sub2: "set (pool s) \<subseteq> set (pool (snd a1))" by simp
  from sub1 sub2 have sub: "set (pool s) \<subseteq> set ?pool0" by blast
  have fresh: "y \<notin> set (pool s)"
    if d: "distinct as" and y: "y \<in> set cr \<or> (\<exists>kr\<in>set (fst a1). y \<in> set (snd kr))" for y
  proof -
    from d have "distinct ?pool0" by (rule excludeAssets_distinct)
    with reduceKeys_fresh [OF a1] have d1: "distinct (pool (snd a1))"
      and f1: "\<forall>kr\<in>set (fst a1). \<forall>x\<in>set (snd kr). x \<notin> set (pool (snd a1))"
      by simp_all
    from cacheSome_prov [OF b] d1 have "\<forall>x\<in>set cr. x \<notin> set (pool s)" by simp
    with y f1 sub2 show ?thesis by blast
  qed
  have lit: "reached L p as ws kpre key (pre @ [x])
                  = Inr (fst a1, cr @ [x], s\<lparr>warnings := warnings s @ ?W\<rparr>)
                \<and> (\<exists>more later.
                      map_of result key = Some (cr @ x # more)
                      \<and> warnings st = warnings s @ ?W @ later)"
    if l: "x \<noteq> REST_KEY p" "hasMagic L x = None" "x \<notin> set (pool s)"
  proof -
    from l have step: "cacheKeyStep L p key (cr, s) x
        = Inr (cr @ [x], s\<lparr>warnings := warnings s @ ?W\<rparr>)"
      by (auto simp add: cacheKeyStep_def)
    with b have r1: "reached L p as ws kpre key (pre @ [x])
        = Inr (fst a1, cr @ [x], s\<lparr>warnings := warnings s @ ?W\<rparr>)"
      by (simp add: reached_def a1 cacheSome_append)
    from cs2 step have "cacheSome L p key post (cr @ [x], s\<lparr>warnings := warnings s @ ?W\<rparr>)
        = Inr (r, s2')" by simp
    from cacheSome_ext [OF this] obtain n w where n: "r = (cr @ [x]) @ n"
      and w: "warnings s2' = (warnings s @ ?W) @ w" by auto
    from reduceKeys_ext [OF r3] a2 obtain new w' where new: "fst a3 = (fst a1 @ [(key, r)]) @ new"
      and w': "warnings (snd a3) = warnings s2' @ w'" by auto
    from reduceKeys_ext [OF a1] have k1: "fst ` set (fst a1) \<subseteq> set kpre" by auto
    have "distinct cacheNames" by (simp add: cacheNames_def)
    then have "distinct (kpre @ key # kpost)" unfolding names .
    then have "key \<notin> set kpre" by simp
    with k1 have "key \<notin> fst ` set (fst a1)" by blast
    then have "map_of (fst a3) key = Some r"
      unfolding new using map_of_fresh_key [of key "fst a1" r new] by simp
    with res have "\<exists>more. map_of result key = Some (r @ more)"
      by (auto simp add: map_of_concatAt)
    with n have m: "\<exists>more. map_of result key = Some (cr @ x # more)" by auto
    from w w' st have "warnings st = warnings s @ ?W @ (w @ w')" by simp
    with r1 m show ?thesis by blast
  qed
  have f': "distinct as \<longrightarrow>
      (\<forall>y. y \<in> set cr \<or> (\<exists>kr\<in>set (fst a1). y \<in> set (snd kr)) \<longrightarrow> y \<notin> set (pool s))"
    using fresh by blast
  have l': "x \<noteq> REST_KEY p \<and> hasMagic L x = None \<and> x \<notin> set (pool s) \<longrightarrow>
                reached L p as ws kpre key (pre @ [x])
                  = Inr (fst a1, cr @ [x], s\<lparr>warnings := warnings s @ ?W\<rparr>)
                \<and> (\<exists>more later.
                      map_of result key = Some (cr @ x # more)
                      \<and> warnings st = warnings s @ ?W @ later)"
    using lit by blast
  show ?thesis
  proof (rule exI, rule exI, rule exI)
    from reach sub f' l'
    show "reached L p as ws kpre key pre = Inr (fst a1, cr, s)
           \<and> set (pool s) \<subseteq> set ?pool0
           \<and> (distinct as \<longrightarrow>
                (\<forall>y. y \<in> set cr \<or> (\<exists>kr\<in>set (fst a1). y \<in> set (snd kr)) \<longrightarrow> y \<notin> set (pool s)))
           \<and> (x \<noteq> REST_KEY p \<and> hasMagic L x = None \<and> x \<notin> set (pool s) \<longrightarrow>
                reached L p as ws kpre key (pre @ [x])
                  = Inr (fst a1, cr @ [x], s\<lparr>warnings := warnings s @ ?W\<rparr>)
                \<and> (\<exists>more later.
                      map_of result key = Some (cr @ x # more)
                      \<and> warnings st = warnings s @ ?W @ later))"
      by (intro conjI)
  qed
qed

text \<open>
  The buckets \<open>setAssets\<close> stores are the buckets of \<open>rawCaches\<close> with
  \<open>validatePaths\<close> applied to each: \<open>rawCaches\<close> is the bucket map before rewriting
  and normalisation.
\<close>

lemma validatePaths_append: "validatePaths p (xs @ ys) = validatePaths p xs @ validatePaths p ys"
  by (simp add: validatePaths_def)

lemma reduceStep_post:
  "reduceStep L p post c (postMap post acc) key
   = map_sum (\<lambda>e. e) (postMap post) (reduceStep L p (\<lambda>xs. xs) c acc key)"
  by (auto simp add: reduceStep_def postMap_def Let_def split: sum.splits)

lemma reduceKeys_post:
  "reduceKeys L p post c keys (postMap post acc)
   = map_sum (\<lambda>e. e) (postMap post) (reduceKeys L p (\<lambda>xs. xs) c keys acc)"
proof (induction keys arbitrary: acc)
  case Nil
  then show ?case by simp
next
  case (Cons key keys)
  show ?case
    by (cases "reduceStep L p (\<lambda>xs. xs) c acc key") (simp_all add: reduceStep_post Cons.IH)
qed

lemma concatAt_post:
  assumes "\<And>xs ys. post (xs @ ys) = post xs @ post ys"
  shows "concatAt rs (post extra) (map (\<lambda>kr. (fst kr, post (snd kr))) res)
       = map (\<lambda>kr. (fst kr, post (snd kr))) (concatAt rs extra res)"
  using assms by (simp add: concatAt_def)

lemma handleCaches_post:
  assumes "\<And>xs ys. post (xs @ ys) = post xs @ post ys"
  shows "handleCaches L p post c st
       = map_sum (\<lambda>e. e) (postMap post) (handleCaches L p (\<lambda>xs. xs) c st)"
proof -
  have "reduceKeys L p post c cacheNames ([], st)
      = map_sum (\<lambda>e. e) (postMap post) (reduceKeys L p (\<lambda>xs. xs) c cacheNames ([], st))"
    using reduceKeys_post [of L p post c cacheNames "([], st)"] by (simp add: postMap_def)
  then show ?thesis
    by (auto simp add: handleCaches_def postMap_def concatAt_post [OF assms]
        split: sum.splits option.splits)
qed

lemma setAssets_rawCaches:
  assumes "cachesOption p \<noteq> JStr ''all''"
  shows "setAssets L p as ws =
     (case rawCaches L p as ws of
        Inl e \<Rightarrow> Inl e
      | Inr r \<Rightarrow> Inr (p\<lparr>assets := Some (pool (snd r)),
                          caches := Some (map (\<lambda>kr. (fst kr, validatePaths p (snd kr))) (fst r))\<rparr>,
                       warnings (snd r)))"
  using assms
  by (simp add: setAssets_def rawCaches_def Let_def postMap_def
      handleCaches_post [where post="validatePaths p", OF validatePaths_append]
      split: sum.splits)


lemma literal_in_setAssets:
  assumes mode: "cachesOption p \<noteq> JStr ''all''"
    and run: "setAssets L p as ws = Inr (p', ws')"
    and names: "cacheNames = kpre @ key # kpost"
    and sel: "cacheFor (cachesOption p) key = pre @ x # post"
    and lit: "x \<noteq> REST_KEY p" "hasMagic L x = None"
  shows "\<exists>earlier cr s.
           reached L p as ws kpre key pre = Inr (earlier, cr, s)
           \<and> (x \<notin> set (excludeAssets L (opt_excludes (options p)) as) \<longrightarrow> x \<notin> set (pool s))
           \<and> (distinct as \<and> (x \<in> set cr \<or> (\<exists>kr\<in>set earlier. x \<in> set (snd kr)))
                \<longrightarrow> x \<notin> set (pool s))
           \<and> (x \<notin> set (pool s) \<longrightarrow>
                reached L p as ws kpre key (pre @ [x])
                  = Inr (earlier, cr @ [x],
                         s\<lparr>warnings := warnings s @
                              (if x \<in> set (externals p) then [] else [AssetNotFound x])\<rparr>)
                \<and> (\<exists>more stored later.
                      caches p' = Some stored
                      \<and> map_of stored key = Some (validatePaths p (cr @ x # more))
                      \<and> ws' = warnings s @
                           (if x \<in> set (externals p) then [] else [AssetNotFound x]) @ later))"
proof -
  let ?W = "if x \<in> set (externals p) then [] else [AssetNotFound x]"
  from run mode obtain result st where raw: "rawCaches L p as ws = Inr (result, st)"
    and p': "caches p' = Some (map (\<lambda>kr. (fst kr, validatePaths p (snd kr))) result)"
    and ws': "ws' = warnings st"
    by (auto simp add: setAssets_rawCaches split: sum.splits)
  from literal_in_run [OF raw names sel] obtain bs cr s where
    reach: "reached L p as ws kpre key pre = Inr (bs, cr, s)"
    and sub: "set (pool s) \<subseteq> set (excludeAssets L (opt_excludes (options p)) as)"
    and fresh: "distinct as \<longrightarrow>
                (\<forall>y. y \<in> set cr \<or> (\<exists>kr\<in>set bs. y \<in> set (snd kr)) \<longrightarrow> y \<notin> set (pool s))"
    and l: "x \<noteq> REST_KEY p \<and> hasMagic L x = None \<and> x \<notin> set (pool s) \<longrightarrow>
                reached L p as ws kpre key (pre @ [x])
                  = Inr (bs, cr @ [x], s\<lparr>warnings := warnings s @ ?W\<rparr>)
                \<and> (\<exists>more later.
                      map_of result key = Some (cr @ x # more)
                      \<and> warnings st = warnings s @ ?W @ later)"
    by blast
  have a: "x \<notin> set (excludeAssets L (opt_excludes (options p)) as) \<longrightarrow> x \<notin> set (pool s)"
    using sub by blast
  have b: "distinct as \<and> (x \<in> set cr \<or> (\<exists>kr\<in>set bs. x \<in> set (snd kr)))
                \<longrightarrow> x \<notin> set (pool s)"
    using fresh by blast
  have c: "x \<notin> set (pool s) \<longrightarrow>
                reached L p as ws kpre key (pre @ [x])
                  = Inr (bs, cr @ [x], s\<lparr>warnings := warnings s @ ?W\<rparr>)
                \<and> (\<exists>more stored later.
                      caches p' = Some stored
                      \<and> map_of stored key = Some (validatePaths p (cr @ x # more))
                      \<and> ws' = warnings s @ ?W @ later)"
  proof
    assume "x \<notin> set (pool s)"
    with l lit obtain more later where
      r1: "reached L p as ws kpre key (pre @ [x])
                  = Inr (bs, cr @ [x], s\<lparr>warnings := warnings s @ ?W\<rparr>)"
      and m: "map_of result key = Some (cr @ x # more)"
      and w: "warnings st = warnings s @ ?W @ later"
      by blast
    from m have "map_of (map (\<lambda>kr. (fst kr, validatePaths p (snd kr))) result) key
        = Some (validatePaths p (cr @ x # more))"
      by (simp add: map_of_post)
    with p' w ws' r1 show "reached L p as ws kpre key (pre @ [x])
                  = Inr (bs, cr @ [x], s\<lparr>warnings := warnings s @ ?W\<rparr>)
                \<and> (\<exists>more stored later.
                      caches p' = Some stored
                      \<and> map_of stored key = Some (validatePaths p (cr @ x # more))
                      \<and> ws' = warnings s @ ?W @ later)"
      by blast
  qed
  show ?thesis
  proof (rule exI, rule exI, rule exI)
    from reach a b c
    show "reached L p as ws kpre key pre = Inr (bs, cr, s)
           \<and> (x \<notin> set (excludeAssets L (opt_excludes (options p)) as) \<longrightarrow> x \<notin> set (pool s))
           \<and> (distinct as \<and> (x \<in> set cr \<or> (\<exists>kr\<in>set bs. x \<in> set (snd kr)))
                \<longrightarrow> x \<notin> set (pool s))
           \<and> (x \<notin> set (pool s) \<longrightarrow>
                reached L p as ws kpre key (pre @ [x])
                  = Inr (bs, cr @ [x], s\<lparr>warnings := warnings s @ ?W\<rparr>)
                \<and> (\<exists>more stored later.
                      caches p' = Some stored
                      \<and> map_of stored key = Some (validatePaths p (cr @ x # more))
                      \<and> ws' = warnings s @ ?W @ later))"
      by (intro conjI)
  qed
qed

text \<open>
  Claim C3. In a run of \<open>setAssets\<close> outside simplified mode that returns, take a literal
  selector \<open>cacheKey\<close> (not the sentinel, no glob syntax) at any place of the selector list
  of any bucket \<open>key\<close>. The run reaches it: \<open>reached\<close> gives the buckets stored
  earlier, the \<^verbatim>\<open>cacheResult\<close> of its bucket and the state it meets. The asset it names
  is absent from the remaining pool when it is not among the filtered assets, and, for
  assets without duplicates, when it is already an entry of an earlier bucket or of the
  \<^verbatim>\<open>cacheResult\<close>, that is, claimed by an earlier selector. When it is absent, this
  selector leaves the pool and the sentinel as they are, appends itself to
  \<^verbatim>\<open>cacheResult\<close> and adds exactly one missing-asset warning naming it, or none when
  the name is in the externals; the bucket \<open>setAssets\<close> stores under \<open>key\<close> is
  \<open>validatePaths\<close> of a list that continues \<^verbatim>\<open>cacheResult\<close> with the selector, and the
  warnings \<open>setAssets\<close> returns continue the warnings met with exactly that warning.
\<close>

theorem missing_literal_is_passed_through:
  assumes "cachesOption p \<noteq> JStr ''all''"
    and "setAssets L p as ws = Inr (p', ws')"
    and "[''main'', ''additional'', ''optional''] = kpre @ key # kpost"
    and "cacheFor (cachesOption p) key = pre @ cacheKey # post"
    and "cacheKey \<noteq> REST_KEY p"
    and "hasMagic L cacheKey = None"
  shows "\<exists>earlier cacheResult s.
           reached L p as ws kpre key pre = Inr (earlier, cacheResult, s)
           \<and> (cacheKey \<notin> set (excludeAssets L (opt_excludes (options p)) as)
                \<longrightarrow> cacheKey \<notin> set (pool s))
           \<and> (distinct as
                \<and> (cacheKey \<in> set cacheResult \<or> (\<exists>kr\<in>set earlier. cacheKey \<in> set (snd kr)))
                \<longrightarrow> cacheKey \<notin> set (pool s))
           \<and> (cacheKey \<notin> set (pool s) \<longrightarrow>
                reached L p as ws kpre key (pre @ [cacheKey])
                  = Inr (earlier, cacheResult @ [cacheKey],
                         s\<lparr>warnings := warnings s @
                              (if cacheKey \<in> set (externals p) then []
                               else [AssetNotFound cacheKey])\<rparr>)
                \<and> (\<exists>more stored later.
                      caches p' = Some stored
                      \<and> map_of stored key = Some (validatePaths p (cacheResult @ cacheKey # more))
                      \<and> ws' = warnings s @
                           (if cacheKey \<in> set (externals p) then []
                            else [AssetNotFound cacheKey]) @ later))"
  using assms(1,2) assms(3) [folded cacheNames_def] assms(4,5,6)
  by (rule literal_in_setAssets)

text \<open>
  Claim C9. When the externals option is not an array, the constructor fails exactly when
  it fails with the empty array in its place, and a constructed plugin has no externals.
  So in every run of \<open>setAssets\<close> outside simplified mode that returns, every literal
  selector that is reached while the remaining pool does not hold the asset it names adds
  its missing-asset warning, and the warnings \<open>setAssets\<close> returns continue the warnings
  met with that warning.
\<close>

theorem non_array_externals_are_empty:
  assumes "\<not> isArray (opt_externals opts)"
  shows "(isl (constructor opts) \<longleftrightarrow> isl (constructor (opts\<lparr>opt_externals := JArr []\<rparr>)))
    \<and> (\<forall>p. constructor opts = Inr p \<longrightarrow>
          externals p = [] \<and>
          (\<forall>L as ws p' ws' kpre key kpost pre cacheKey post.
              cachesOption p \<noteq> JStr ''all'' \<and> setAssets L p as ws = Inr (p', ws')
              \<and> [''main'', ''additional'', ''optional''] = kpre @ key # kpost
              \<and> cacheFor (cachesOption p) key = pre @ cacheKey # post
              \<and> cacheKey \<noteq> REST_KEY p \<and> hasMagic L cacheKey = None \<longrightarrow>
              (\<exists>earlier cacheResult s.
                 reached L p as ws kpre key pre = Inr (earlier, cacheResult, s)
                 \<and> (cacheKey \<notin> set (pool s) \<longrightarrow>
                      reached L p as ws kpre key (pre @ [cacheKey])
                        = Inr (earlier, cacheResult @ [cacheKey],
                               s\<lparr>warnings := warnings s @ [AssetNotFound cacheKey]\<rparr>)
                      \<and> (\<exists>later. ws' = warnings s @ AssetNotFound cacheKey # later)))))"
proof -
  have ext: "(case opt_externals opts of JArr xs \<Rightarrow> xs | _ \<Rightarrow> []) = []"
    using assms by (cases "opt_externals opts") auto
  have a: "isl (constructor opts) \<longleftrightarrow> isl (constructor (opts\<lparr>opt_externals := JArr []\<rparr>))"
    by (simp add: constructor_def Let_def split: sum.splits jsval.splits)
  have b: "externals p = []" if "constructor opts = Inr p" for p
    using that ext by (auto simp add: constructor_def Let_def split: if_splits sum.splits)
  have c: "\<exists>bs cacheResult s.
                 reached L p as ws kpre key pre = Inr (bs, cacheResult, s)
                 \<and> (cacheKey \<notin> set (pool s) \<longrightarrow>
                      reached L p as ws kpre key (pre @ [cacheKey])
                        = Inr (bs, cacheResult @ [cacheKey],
                               s\<lparr>warnings := warnings s @ [AssetNotFound cacheKey]\<rparr>)
                      \<and> (\<exists>later. ws' = warnings s @ AssetNotFound cacheKey # later))"
    if e: "externals p = []"
      and h: "cachesOption p \<noteq> JStr ''all''" "setAssets L p as ws = Inr (p', ws')"
        "[''main'', ''additional'', ''optional''] = kpre @ key # kpost"
        "cacheFor (cachesOption p) key = pre @ cacheKey # post"
        "cacheKey \<noteq> REST_KEY p" "hasMagic L cacheKey = None"
    for p L as ws p' ws' kpre key kpost pre cacheKey post
  proof -
    from literal_in_setAssets [OF h(1,2) h(3) [folded cacheNames_def] h(4,5,6)]
    obtain bs cr s where r: "reached L p as ws kpre key pre = Inr (bs, cr, s)"
      and l: "cacheKey \<notin> set (pool s) \<longrightarrow>
                reached L p as ws kpre key (pre @ [cacheKey])
                  = Inr (bs, cr @ [cacheKey],
                         s\<lparr>warnings := warnings s @
                              (if cacheKey \<in> set (externals p) then []
                               else [AssetNotFound cacheKey])\<rparr>)
                \<and> (\<exists>more stored later.
                      caches p' = Some stored
                      \<and> map_of stored key = Some (validatePaths p (cr @ cacheKey # more))
                      \<and> ws' = warnings s @
                           (if cacheKey \<in> set (externals p) then []
                            else [AssetNotFound cacheKey]) @ later)"
      by blast
    from l e have "cacheKey \<notin> set (pool s) \<longrightarrow>
                      reached L p as ws kpre key (pre @ [cacheKey])
                        = Inr (bs, cr @ [cacheKey],
                               s\<lparr>warnings := warnings s @ [AssetNotFound cacheKey]\<rparr>)
                      \<and> (\<exists>later. ws' = warnings s @ AssetNotFound cacheKey # later)"
      by auto
    with r show ?thesis by blast
  qed
  from a b c show ?thesis by blast
qed


section \<open>The claims at concrete inputs\<close>

lemma defaultRewrites_cdn_js: "defaultRewrites ''cdn.js'' = ''cdn.js''"
  by code_simp

lemmas reach_defs = reached_def poolWhen_def cachesOption_def excludeAssets_def cacheNames_def
  reduceStep_def cacheFor_def cacheKeyStep_def globScan_filter Let_def

theorem bucket_entries_provenance_witness:
  "distinct [''a.js'', ''b.css'']
   \<and> rawCaches globLibs
       (projr (constructor (defaultOptions\<lparr>opt_caches :=
          JObj [(''main'', JArr [''*.js'']), (''additional'', JArr [''a.js''])]\<rparr>)))
       [''a.js'', ''b.css''] []
     = Inr ([(''main'', [''a.js'']), (''additional'', [''a.js''])],
            \<lparr>pool = [''b.css''], restSection = None, warnings = [AssetNotFound ''a.js'']\<rparr>)
   \<and> poolWhen globLibs
       (projr (constructor (defaultOptions\<lparr>opt_caches :=
          JObj [(''main'', JArr [''*.js'']), (''additional'', JArr [''a.js''])]\<rparr>)))
       [''a.js'', ''b.css''] [] ''main'' = [''a.js'', ''b.css'']
   \<and> poolWhen globLibs
       (projr (constructor (defaultOptions\<lparr>opt_caches :=
          JObj [(''main'', JArr [''*.js'']), (''additional'', JArr [''a.js''])]\<rparr>)))
       [''a.js'', ''b.css''] [] ''additional'' = [''b.css'']
   \<and> passedThrough globLibs
       (projr (constructor (defaultOptions\<lparr>opt_caches :=
          JObj [(''main'', JArr [''*.js'']), (''additional'', JArr [''a.js''])]\<rparr>)))
       [''a.js''] [AssetNotFound ''a.js''] ''a.js''"
proof -
  let ?P = "projr (constructor (defaultOptions\<lparr>opt_caches :=
          JObj [(''main'', JArr [''*.js'']), (''additional'', JArr [''a.js''])]\<rparr>))"
  have h1: "distinct [''a.js'', ''b.css'']" by simp
  have h2: "rawCaches globLibs ?P [''a.js'', ''b.css''] []
     = Inr ([(''main'', [''a.js'']), (''additional'', [''a.js''])],
            \<lparr>pool = [''b.css''], restSection = None, warnings = [AssetNotFound ''a.js'']\<rparr>)"
    by (simp add: ctor_defs raw_defs globLibs_def)
  have c: "cacheFor (cachesOption ?P) ''additional'' = [''a.js'']"
    by (simp add: ctor_defs cachesOption_def cacheFor_def)
  have pm: "poolWhen globLibs ?P [''a.js'', ''b.css''] [] ''main'' = [''a.js'', ''b.css'']"
    by (simp add: ctor_defs reach_defs globLibs_def)
  have pa: "poolWhen globLibs ?P [''a.js'', ''b.css''] [] ''additional'' = [''b.css'']"
    by (simp add: ctor_defs reach_defs globLibs_def)
  from bucket_entries_provenance [OF h2] h1
  have "\<forall>kr\<in>set [(''main'', [''a.js'']), (''additional'', [''a.js''])].
        \<forall>kr'\<in>set [(''main'', [''a.js'']), (''additional'', [''a.js''])]. fst kr \<noteq> fst kr' \<longrightarrow>
            (\<forall>x. x \<in> set (snd kr) \<and> x \<in> set (snd kr') \<longrightarrow>
               (x \<notin> set (poolWhen globLibs ?P [''a.js'', ''b.css''] [] (fst kr))
                \<and> passedThrough globLibs ?P (cacheFor (cachesOption ?P) (fst kr))
                    [AssetNotFound ''a.js''] x)
               \<or> (x \<notin> set (poolWhen globLibs ?P [''a.js'', ''b.css''] [] (fst kr'))
                \<and> passedThrough globLibs ?P (cacheFor (cachesOption ?P) (fst kr'))
                    [AssetNotFound ''a.js''] x))"
    by simp
  then have "(''a.js'' \<notin> set (poolWhen globLibs ?P [''a.js'', ''b.css''] [] ''main'')
                \<and> passedThrough globLibs ?P (cacheFor (cachesOption ?P) ''main'')
                    [AssetNotFound ''a.js''] ''a.js'')
               \<or> (''a.js'' \<notin> set (poolWhen globLibs ?P [''a.js'', ''b.css''] [] ''additional'')
                \<and> passedThrough globLibs ?P (cacheFor (cachesOption ?P) ''additional'')
                    [AssetNotFound ''a.js''] ''a.js'')"
    by simp
  with pm c have "passedThrough globLibs ?P [''a.js''] [AssetNotFound ''a.js''] ''a.js''"
    by simp
  with h1 h2 pm pa show ?thesis by blast
qed

theorem missing_literal_is_passed_through_witness:
  "setAssets globLibs
       (projr (constructor (defaultOptions\<lparr>opt_caches :=
          JObj [(''main'', JArr [''*.js'']), (''additional'', JArr [''a.js''])]\<rparr>)))
       [''a.js'', ''b.css''] []
     = Inr ((projr (constructor (defaultOptions\<lparr>opt_caches :=
          JObj [(''main'', JArr [''*.js'']), (''additional'', JArr [''a.js''])]\<rparr>)))
              \<lparr>assets := Some [''b.css''],
               caches := Some [(''main'', [''/a.js'']), (''additional'', [''/a.js''])]\<rparr>,
            [AssetNotFound ''a.js''])
   \<and> reached globLibs
       (projr (constructor (defaultOptions\<lparr>opt_caches :=
          JObj [(''main'', JArr [''*.js'']), (''additional'', JArr [''a.js''])]\<rparr>)))
       [''a.js'', ''b.css''] [] [''main''] ''additional'' []
     = Inr ([(''main'', [''a.js''])], [],
            \<lparr>pool = [''b.css''], restSection = None, warnings = []\<rparr>)
   \<and> reached globLibs
       (projr (constructor (defaultOptions\<lparr>opt_caches :=
          JObj [(''main'', JArr [''*.js'']), (''additional'', JArr [''a.js''])]\<rparr>)))
       [''a.js'', ''b.css''] [] [''main''] ''additional'' [''a.js'']
     = Inr ([(''main'', [''a.js''])], [''a.js''],
            \<lparr>pool = [''b.css''], restSection = None, warnings = [AssetNotFound ''a.js'']\<rparr>)"
proof -
  let ?P = "projr (constructor (defaultOptions\<lparr>opt_caches :=
          JObj [(''main'', JArr [''*.js'']), (''additional'', JArr [''a.js''])]\<rparr>))"
  let ?S = "\<lparr>pool = [''b.css''], restSection = None, warnings = []\<rparr>"
  have h1: "cachesOption ?P \<noteq> JStr ''all''"
    by (simp add: ctor_defs cachesOption_def)
  have h2: "setAssets globLibs ?P [''a.js'', ''b.css''] []
     = Inr (?P\<lparr>assets := Some [''b.css''],
               caches := Some [(''main'', [''/a.js'']), (''additional'', [''/a.js''])]\<rparr>,
            [AssetNotFound ''a.js''])"
    by (simp add: ctor_defs setAssets_def validatePaths_def rewrite_def normalizePath_def
        raw_defs globLibs_def defaultRewrites_a_js)
  have h3: "[''main'', ''additional'', ''optional''] = [''main''] @ ''additional'' # [''optional'']"
    by simp
  have h4: "cacheFor (cachesOption ?P) ''additional'' = [] @ ''a.js'' # []"
    by (simp add: ctor_defs cachesOption_def cacheFor_def)
  have h5: "''a.js'' \<noteq> REST_KEY ?P" by (simp add: ctor_defs)
  have h6: "hasMagic globLibs ''a.js'' = None" by (simp add: globLibs_def)
  have hr: "reached globLibs ?P [''a.js'', ''b.css''] [] [''main''] ''additional'' []
     = Inr ([(''main'', [''a.js''])], [], ?S)"
    by (simp add: ctor_defs reach_defs globLibs_def)
  from missing_literal_is_passed_through [OF h1 h2 h3 h4 h5 h6]
  obtain bs cr s where
    r: "reached globLibs ?P [''a.js'', ''b.css''] [] [''main''] ''additional'' [] = Inr (bs, cr, s)"
    and claimed: "distinct [''a.js'', ''b.css'']
                \<and> (''a.js'' \<in> set cr \<or> (\<exists>kr\<in>set bs. ''a.js'' \<in> set (snd kr)))
                \<longrightarrow> ''a.js'' \<notin> set (pool s)"
    and pushed: "''a.js'' \<notin> set (pool s) \<longrightarrow>
                reached globLibs ?P [''a.js'', ''b.css''] [] [''main''] ''additional'' ([] @ [''a.js''])
                  = Inr (bs, cr @ [''a.js''],
                         s\<lparr>warnings := warnings s @
                              (if ''a.js'' \<in> set (externals ?P) then []
                               else [AssetNotFound ''a.js''])\<rparr>)"
    by blast
  from r hr have eq: "bs = [(''main'', [''a.js''])]" "cr = []" "s = ?S" by simp_all
  from claimed eq have "''a.js'' \<notin> set (pool ?S)" by simp
  with pushed eq
  have "reached globLibs ?P [''a.js'', ''b.css''] [] [''main''] ''additional'' [''a.js'']
     = Inr ([(''main'', [''a.js''])], [''a.js''],
            \<lparr>pool = [''b.css''], restSection = None, warnings = [AssetNotFound ''a.js'']\<rparr>)"
    by (simp add: ctor_defs)
  with h2 hr show ?thesis by blast
qed

theorem non_array_externals_are_empty_witness:
  "\<not> isArray (opt_externals (defaultOptions\<lparr>opt_externals := JStr ''cdn.js'',
        opt_caches := JObj [(''main'', JArr [''cdn.js''])]\<rparr>))
   \<and> \<not> isl (constructor (defaultOptions\<lparr>opt_externals := JStr ''cdn.js'',
        opt_caches := JObj [(''main'', JArr [''cdn.js''])]\<rparr>))
   \<and> externals (projr (constructor (defaultOptions\<lparr>opt_externals := JStr ''cdn.js'',
        opt_caches := JObj [(''main'', JArr [''cdn.js''])]\<rparr>))) = []
   \<and> setAssets globLibs
       (projr (constructor (defaultOptions\<lparr>opt_externals := JStr ''cdn.js'',
          opt_caches := JObj [(''main'', JArr [''cdn.js''])]\<rparr>)))
       [''a.js''] []
     = Inr ((projr (constructor (defaultOptions\<lparr>opt_externals := JStr ''cdn.js'',
          opt_caches := JObj [(''main'', JArr [''cdn.js''])]\<rparr>)))
              \<lparr>assets := Some [''a.js''], caches := Some [(''main'', [''/cdn.js''])]\<rparr>,
            [AssetNotFound ''cdn.js''])
   \<and> reached globLibs
       (projr (constructor (defaultOptions\<lparr>opt_externals := JStr ''cdn.js'',
          opt_caches := JObj [(''main'', JArr [''cdn.js''])]\<rparr>)))
       [''a.js''] [] [] ''main'' [''cdn.js'']
     = Inr ([], [''cdn.js''],
            \<lparr>pool = [''a.js''], restSection = None, warnings = [AssetNotFound ''cdn.js'']\<rparr>)"
proof -
  let ?O = "defaultOptions\<lparr>opt_externals := JStr ''cdn.js'',
        opt_caches := JObj [(''main'', JArr [''cdn.js''])]\<rparr>"
  let ?P = "projr (constructor ?O)"
  let ?S = "\<lparr>pool = [''a.js''], restSection = None, warnings = []\<rparr>"
  have h0: "\<not> isArray (opt_externals ?O)" by simp
  have hc: "constructor ?O = Inr ?P" by (simp add: ctor_defs)
  have h1: "cachesOption ?P \<noteq> JStr ''all''"
    by (simp add: ctor_defs cachesOption_def)
  have h2: "setAssets globLibs ?P [''a.js''] []
     = Inr (?P\<lparr>assets := Some [''a.js''], caches := Some [(''main'', [''/cdn.js''])]\<rparr>,
            [AssetNotFound ''cdn.js''])"
    by (simp add: ctor_defs setAssets_def validatePaths_def rewrite_def normalizePath_def
        raw_defs globLibs_def defaultRewrites_cdn_js)
  have h3: "[''main'', ''additional'', ''optional''] = [] @ ''main'' # [''additional'', ''optional'']"
    by simp
  have h4: "cacheFor (cachesOption ?P) ''main'' = [] @ ''cdn.js'' # []"
    by (simp add: ctor_defs cachesOption_def cacheFor_def)
  have h5: "''cdn.js'' \<noteq> REST_KEY ?P" by (simp add: ctor_defs)
  have h6: "hasMagic globLibs ''cdn.js'' = None" by (simp add: globLibs_def)
  have hr: "reached globLibs ?P [''a.js''] [] [] ''main'' [] = Inr ([], [], ?S)"
    by (simp add: ctor_defs reach_defs globLibs_def)
  from non_array_externals_are_empty [OF h0] hc
  have B: "externals ?P = [] \<and>
          (\<forall>L as ws p' ws' kpre key kpost pre cacheKey post.
              cachesOption ?P \<noteq> JStr ''all'' \<and> setAssets L ?P as ws = Inr (p', ws')
              \<and> [''main'', ''additional'', ''optional''] = kpre @ key # kpost
              \<and> cacheFor (cachesOption ?P) key = pre @ cacheKey # post
              \<and> cacheKey \<noteq> REST_KEY ?P \<and> hasMagic L cacheKey = None \<longrightarrow>
              (\<exists>earlier cacheResult s.
                 reached L ?P as ws kpre key pre = Inr (earlier, cacheResult, s)
                 \<and> (cacheKey \<notin> set (pool s) \<longrightarrow>
                      reached L ?P as ws kpre key (pre @ [cacheKey])
                        = Inr (earlier, cacheResult @ [cacheKey],
                               s\<lparr>warnings := warnings s @ [AssetNotFound cacheKey]\<rparr>)
                      \<and> (\<exists>later. ws' = warnings s @ AssetNotFound cacheKey # later))))"
    by blast
  have "\<exists>earlier cacheResult s.
          reached globLibs ?P [''a.js''] [] [] ''main'' [] = Inr (earlier, cacheResult, s)
          \<and> (''cdn.js'' \<notin> set (pool s) \<longrightarrow>
               reached globLibs ?P [''a.js''] [] [] ''main'' ([] @ [''cdn.js''])
                 = Inr (earlier, cacheResult @ [''cdn.js''],
                        s\<lparr>warnings := warnings s @ [AssetNotFound ''cdn.js'']\<rparr>)
               \<and> (\<exists>later. [AssetNotFound ''cdn.js''] = warnings s @ AssetNotFound ''cdn.js'' # later))"
    by (rule conjunct2 [OF B, rule_format]) (rule conjI h1 h2 h3 h4 h5 h6)+
  then obtain bs cr s where
    r: "reached globLibs ?P [''a.js''] [] [] ''main'' [] = Inr (bs, cr, s)"
    and pushed: "''cdn.js'' \<notin> set (pool s) \<longrightarrow>
               reached globLibs ?P [''a.js''] [] [] ''main'' ([] @ [''cdn.js''])
                 = Inr (bs, cr @ [''cdn.js''],
                        s\<lparr>warnings := warnings s @ [AssetNotFound ''cdn.js'']\<rparr>)"
    by blast
  from r hr have eq: "bs = []" "cr = []" "s = ?S" by simp_all
  with pushed have fin: "reached globLibs ?P [''a.js''] [] [] ''main'' [''cdn.js'']
     = Inr ([], [''cdn.js''],
            \<lparr>pool = [''a.js''], restSection = None, warnings = [AssetNotFound ''cdn.js'']\<rparr>)"
    by simp
  from B have e: "externals ?P = []" by (rule conjunct1)
  from hc have nl: "\<not> isl (constructor ?O)" by (simp add: ctor_defs)
  from h0 nl e h2 fin show ?thesis by (intro conjI)
qed

text \<open>
  With the assets \<^verbatim>\<open>["a.js"]\<close> and the buckets
  \<^verbatim>\<open>{main: ["a.js", "missing.js"], additional: ["a.js"]}\<close>, which hold no sentinel,
  \<^verbatim>\<open>missing.js\<close> is in \<^verbatim>\<open>main\<close> though it is no asset, and \<^verbatim>\<open>a.js\<close> is in both
  buckets, before and after normalisation.
\<close>

theorem bucket_entries_counterexample:
  "rawCaches globLibs
     (projr (constructor (defaultOptions\<lparr>opt_caches :=
        JObj [(''main'', JArr [''a.js'', ''missing.js'']), (''additional'', JArr [''a.js''])]\<rparr>)))
     [''a.js''] []
   = Inr ([(''main'', [''a.js'', ''missing.js'']), (''additional'', [''a.js''])],
          \<lparr>pool = [], restSection = None,
           warnings = [AssetNotFound ''missing.js'', AssetNotFound ''a.js'']\<rparr>)
   \<and> emit globLibs (defaultOptions\<lparr>opt_caches :=
        JObj [(''main'', JArr [''a.js'', ''missing.js'']), (''additional'', JArr [''a.js''])]\<rparr>)
     [''a.js'']
   = Inr (Some [(''main'', [''/a.js'', ''/missing.js'']), (''additional'', [''/a.js''])],
          [AssetNotFound ''missing.js'', AssetNotFound ''a.js''])"
  by (simp add: ctor_defs raw_defs globLibs_def build_defs part_defs defaultRewrites_a_js
      defaultRewrites_missing_js)

theorem excluded_asset_only_as_literal_witness:
  "opt_excludes (options (projr (constructor (defaultOptions\<lparr>opt_excludes := JArr [''*.map''],
       opt_caches := JObj [(''main'', JArr [''*.js'']),
                           (''additional'', JArr ['':rest:'', ''app.js.map''])]\<rparr>))))
     = JArr [''*.map'']
   \<and> list_ex (\<lambda>glob. minimatch globLibs ''app.js.map'' glob) [''*.map'']
   \<and> rawCaches globLibs
       (projr (constructor (defaultOptions\<lparr>opt_excludes := JArr [''*.map''],
          opt_caches := JObj [(''main'', JArr [''*.js'']),
                              (''additional'', JArr ['':rest:'', ''app.js.map''])]\<rparr>)))
       [''app.js'', ''app.js.map'', ''style.css''] []
     = Inr ([(''main'', [''app.js'']), (''additional'', [''app.js.map'', ''style.css''])],
            \<lparr>pool = [''style.css''], restSection = Some ''additional'',
             warnings = [AssetNotFound ''app.js.map'']\<rparr>)
   \<and> passedThrough globLibs
       (projr (constructor (defaultOptions\<lparr>opt_excludes := JArr [''*.map''],
          opt_caches := JObj [(''main'', JArr [''*.js'']),
                              (''additional'', JArr ['':rest:'', ''app.js.map''])]\<rparr>)))
       ['':rest:'', ''app.js.map''] [AssetNotFound ''app.js.map''] ''app.js.map''"
proof -
  let ?P = "projr (constructor (defaultOptions\<lparr>opt_excludes := JArr [''*.map''],
          opt_caches := JObj [(''main'', JArr [''*.js'']),
                              (''additional'', JArr ['':rest:'', ''app.js.map''])]\<rparr>))"
  have h1: "opt_excludes (options ?P) = JArr [''*.map'']"
    by (simp add: ctor_defs)
  have h2: "list_ex (\<lambda>glob. minimatch globLibs ''app.js.map'' glob) [''*.map'']"
    by (simp add: globLibs_def)
  have h3: "rawCaches globLibs ?P [''app.js'', ''app.js.map'', ''style.css''] []
     = Inr ([(''main'', [''app.js'']), (''additional'', [''app.js.map'', ''style.css''])],
            \<lparr>pool = [''style.css''], restSection = Some ''additional'',
             warnings = [AssetNotFound ''app.js.map'']\<rparr>)"
    by (simp add: ctor_defs raw_defs globLibs_def)
  have c: "cacheFor (cachesOption ?P) ''additional'' = ['':rest:'', ''app.js.map'']"
    by (simp add: ctor_defs cachesOption_def cacheFor_def)
  from excluded_asset_only_as_literal [OF h1 h2 h3] c
  have "passedThrough globLibs ?P ['':rest:'', ''app.js.map''] [AssetNotFound ''app.js.map'']
          ''app.js.map''"
    by simp
  with h1 h2 h3 show ?thesis by blast
qed

text \<open>
  The asset \<^verbatim>\<open>app.js.map\<close> is excluded by \<^verbatim>\<open>*.map\<close>, and the literal selector of
  \<^verbatim>\<open>main\<close> that names it puts it in the final bucket map, with a warning.
\<close>

theorem excluded_asset_counterexample:
  "minimatch globLibs ''app.js.map'' ''*.map''
   \<and> emit globLibs (defaultOptions\<lparr>opt_excludes := JArr [''*.map''],
                       opt_caches := JObj [(''main'', JArr [''app.js.map''])]\<rparr>)
       [''app.js'', ''app.js.map'']
     = Inr (Some [(''main'', [''/app.js.map''])], [AssetNotFound ''app.js.map''])"
  by (simp add: globLibs_def build_defs part_defs defaultRewrites_app_js_map)

end
